theory Spec2Isabelle
  imports Main "HOL-Library.AList" "HOL-Library.Sublist"
begin

section \<open>Values, model instances and model metadata\<close>

text \<open>
  Python values that travel between the backup tool's JSON output, the model instances and
  the database columns. \<open>VTime\<close> stands for a \<open>datetime\<close> (always truthy in Python).
\<close>

datatype val =
    VNone
  | VBool bool
  | VInt int
  | VStr string
  | VTime nat
  | VList "val list"
  | VDict "(string \<times> val) list"

fun truthy :: "val \<Rightarrow> bool" where
  "truthy VNone = False"
| "truthy (VBool b) = b"
| "truthy (VInt i) = (i \<noteq> 0)"
| "truthy (VStr s) = (s \<noteq> [])"
| "truthy (VTime t) = True"
| "truthy (VList xs) = (xs \<noteq> [])"
| "truthy (VDict kvs) = (kvs \<noteq> [])"

text \<open>
  A model instance (and a database row) maps attribute names to values; an attribute that
  was never assigned reads \<open>VNone\<close>, as a Django model instance initialises every field.
\<close>

type_synonym obj = "string \<Rightarrow> val"

datatype error =
    IndexError
  | ValueError
  | KeyError
  | TypeError
  | AssertionError
  | IntegrityError
  | FieldDoesNotExist
  | DoesNotExist
  | MultipleObjectsReturned
  | AttributeError
  | CalledProcessError
  | JSONDecodeError

text \<open>
  The part of a Django field that \<open>bulk_sync\<close> and the model constructors inspect;
  \<open>default\<close> is what an instance holds when the constructor is not given the field.
\<close>

record field =
  name :: string
  attname :: string
  primary_key :: bool
  auto_created :: bool
  editable :: bool
  default :: val

record model_meta =
  model_name :: string
  meta_fields :: "field list"

definition pk_attname :: "model_meta \<Rightarrow> string" where
  "pk_attname m = (case find primary_key (meta_fields m) of Some f \<Rightarrow> attname f | None \<Rightarrow> ''id'')"

definition get_field :: "model_meta \<Rightarrow> string \<Rightarrow> field option" where
  "get_field m n = find (\<lambda>f. name f = n \<or> attname f = n) (meta_fields m)"

definition field_attnames :: "model_meta \<Rightarrow> string list \<Rightarrow> string list" where
  "field_attnames m fs = map (\<lambda>n. case get_field m n of Some f \<Rightarrow> attname f | None \<Rightarrow> n) fs"

section \<open>The store: a table of rows\<close>

text \<open>
  The object-relational layer is Django's, not this repository's. It is modelled as far as
  \<open>bulk_sync\<close> and the entity methods use it: a table is the list of its rows, the only
  constraint is the uniqueness of the primary key, an insert without a primary key draws a
  fresh integer key and writes it back to the instance (PostgreSQL, which the array fields
  of the models require), \<open>bulk_update\<close> validates its arguments before it writes and then
  sets the listed columns of the rows whose primary key matches, and a failure inside
  \<open>transaction.atomic()\<close> restores the table.
\<close>

fun int_of_val :: "val \<Rightarrow> int" where
  "int_of_val (VInt i) = i"
| "int_of_val _ = 0"

definition next_pk :: "string \<Rightarrow> obj list \<Rightarrow> val" where
  "next_pk pk t = VInt (1 + foldr (\<lambda>r n. max (int_of_val (r pk)) n) t 0)"

text \<open>\<open>bulk_create\<close> inserts the instances that carry a primary key first, then the others.\<close>

fun insert_with_pk :: "string \<Rightarrow> obj list \<Rightarrow> obj list \<Rightarrow> (error + unit) \<times> obj list" where
  "insert_with_pk pk [] t = (Inr (), t)"
| "insert_with_pk pk (ob # obs) t =
     (if ob pk = VNone then insert_with_pk pk obs t
      else if ob pk \<in> set (map (\<lambda>r. r pk) t) then (Inl IntegrityError, t)
      else insert_with_pk pk obs (t @ [ob]))"

fun insert_without_pk :: "string \<Rightarrow> obj list \<Rightarrow> obj list \<Rightarrow> obj list \<times> obj list" where
  "insert_without_pk pk [] t = ([], t)"
| "insert_without_pk pk (ob # obs) t =
     (if ob pk = VNone then
        (case insert_without_pk pk obs (t @ [ob(pk := next_pk pk t)]) of
           (obs', t') \<Rightarrow> (ob(pk := next_pk pk t) # obs', t'))
      else
        (case insert_without_pk pk obs t of (obs', t') \<Rightarrow> (ob # obs', t')))"

definition bulk_create :: "string \<Rightarrow> obj list \<Rightarrow> obj list \<Rightarrow> (error + obj list) \<times> obj list" where
  "bulk_create pk objs t =
     (case insert_with_pk pk objs t of
        (Inl e, t1) \<Rightarrow> (Inl e, t1)
      | (Inr u, t1) \<Rightarrow> (case insert_without_pk pk objs t1 of (objs', t2) \<Rightarrow> (Inr objs', t2)))"

definition overwrite :: "string list \<Rightarrow> obj \<Rightarrow> obj \<Rightarrow> obj" where
  "overwrite atts ob r = (\<lambda>a. if a \<in> set atts then ob a else r a)"

definition update_row :: "string \<Rightarrow> string list \<Rightarrow> obj list \<Rightarrow> obj \<Rightarrow> obj" where
  "update_row pk atts objs r =
     (case find (\<lambda>ob. ob pk = r pk) objs of Some ob \<Rightarrow> overwrite atts ob r | None \<Rightarrow> r)"

definition bulk_update ::
  "model_meta \<Rightarrow> obj list \<Rightarrow> string list \<Rightarrow> obj list \<Rightarrow> (error + unit) \<times> obj list" where
  "bulk_update m objs fieldlist t =
     (if fieldlist = [] then (Inl ValueError, t)
      else if list_ex (\<lambda>ob. ob (pk_attname m) = VNone) objs then (Inl ValueError, t)
      else if list_ex (\<lambda>n. get_field m n = None) fieldlist then (Inl FieldDoesNotExist, t)
      else if list_ex (\<lambda>n. case get_field m n of Some f \<Rightarrow> primary_key f | None \<Rightarrow> False) fieldlist
        then (Inl ValueError, t)
      else (Inr (), map (update_row (pk_attname m) (field_attnames m fieldlist) objs) t))"

definition atomic :: "('s \<Rightarrow> (error + 'a) \<times> 's) \<Rightarrow> 's \<Rightarrow> (error + 'a) \<times> 's" where
  "atomic body s = (case body s of (Inl e, s') \<Rightarrow> (Inl e, s) | (Inr a, s') \<Rightarrow> (Inr a, s'))"

section \<open>utils/bulk_sync.py\<close>

record stats =
  created :: int
  updated :: int
  deleted :: int

definition get_key :: "string list \<Rightarrow> obj \<Rightarrow> val list" where
  "get_key key_fields ob = map ob key_fields"

text \<open>
  \<open>existing = {get_key(obj): obj for obj in subset_qs}\<close>: a later row replaces an earlier
  one under the same key.
\<close>

definition dict_of :: "string list \<Rightarrow> obj list \<Rightarrow> (val list \<times> obj) list" where
  "dict_of key_fields rows = foldl (\<lambda>d r. AList.update (get_key key_fields r) r d) [] rows"

text \<open>
  The loop over \<open>objs\<close>. Each instance is tagged \<open>True\<close> when it goes to \<open>new_objs\<close> and
  \<open>False\<close> when it goes to \<open>upd_objs\<close> (with the stored primary key assigned), in the order of
  \<open>objs\<close>; the second component is \<open>existing\<close> after the pops.
\<close>

fun classify ::
  "string \<Rightarrow> string list \<Rightarrow> obj list \<Rightarrow> (val list \<times> obj) list
     \<Rightarrow> (bool \<times> obj) list \<times> (val list \<times> obj) list" where
  "classify pk key_fields [] existing = ([], existing)"
| "classify pk key_fields (ob # obs) existing =
     (case map_of existing (get_key key_fields ob) of
        None \<Rightarrow>
          (case classify pk key_fields obs existing of
             (tagged, existing') \<Rightarrow> ((True, ob) # tagged, existing'))
      | Some existing_obj \<Rightarrow>
          (case classify pk key_fields obs (AList.delete (get_key key_fields ob) existing) of
             (tagged, existing') \<Rightarrow> ((False, ob(pk := existing_obj pk)) # tagged, existing')))"

text \<open>
  The instances of \<open>objs\<close> after the call, in their order: those created carry the
  primary key the insert gave them.
\<close>

fun reassemble :: "(bool \<times> obj) list \<Rightarrow> obj list \<Rightarrow> obj list" where
  "reassemble [] ns = []"
| "reassemble ((True, ob) # tagged) (n # ns) = n # reassemble tagged ns"
| "reassemble ((True, ob) # tagged) [] = ob # reassemble tagged []"
| "reassemble ((False, ob) # tagged) ns = ob # reassemble tagged ns"

definition default_fields :: "model_meta \<Rightarrow> string list" where
  "default_fields m =
     map name (filter (\<lambda>f. \<not> primary_key f \<and> \<not> auto_created f \<and> editable f) (meta_fields m))"

definition resolve_fields ::
  "model_meta \<Rightarrow> string list option \<Rightarrow> string list option \<Rightarrow> string list" where
  "resolve_fields m fieldlist exclude =
     (let fs = (case fieldlist of
                  None \<Rightarrow> default_fields m
                | Some fl \<Rightarrow> if fl = [] then default_fields m else fl)
      in case exclude of
           None \<Rightarrow> fs
         | Some ex \<Rightarrow> if ex = [] then fs else filter (\<lambda>f. f \<notin> set ex) fs)"

definition in_scope :: "(obj \<Rightarrow> bool) option \<Rightarrow> obj \<Rightarrow> bool" where
  "in_scope filters r = (case filters of None \<Rightarrow> True | Some q \<Rightarrow> q r)"

definition subset_qs :: "(obj \<Rightarrow> bool) option \<Rightarrow> obj list \<Rightarrow> obj list" where
  "subset_qs filters t = filter (in_scope filters) t"

text \<open>The block under \<open>with transaction.atomic()\<close>; a failure leaves its partial writes.\<close>

definition bulk_sync_body ::
  "model_meta \<Rightarrow> obj list \<Rightarrow> string list \<Rightarrow> (obj \<Rightarrow> bool) option \<Rightarrow> string list
     \<Rightarrow> obj list \<Rightarrow> (error + stats \<times> obj list) \<times> obj list" where
  "bulk_sync_body m objs key_fields filters fieldlist t =
     (case classify (pk_attname m) key_fields objs (dict_of key_fields (subset_qs filters t)) of
        (tagged, existing) \<Rightarrow>
     (case bulk_create (pk_attname m) (map snd (filter fst tagged)) t of
        (Inl e, t1) \<Rightarrow> (Inl e, t1)
      | (Inr new_objs, t1) \<Rightarrow>
     (case bulk_update m (map snd (filter (\<lambda>x. \<not> fst x) tagged)) fieldlist t1 of
        (Inl e, t2) \<Rightarrow> (Inl e, t2)
      | (Inr u, t2) \<Rightarrow>
          (let t3 = filter (\<lambda>r. \<not> (in_scope filters r
                       \<and> r (pk_attname m) \<in> set (map (\<lambda>kv. snd kv (pk_attname m)) existing))) t2
           in if int (length (filter (\<lambda>x. \<not> fst x) tagged))
                   \<noteq> int (length objs) - int (length new_objs)
              then (Inl AssertionError, t3)
              else (Inr (\<lparr>created = int (length new_objs),
                          updated = int (length objs) - int (length new_objs),
                          deleted = int (length existing)\<rparr>,
                        reassemble tagged new_objs), t3)))))"

text \<open>
  \<open>bulk_sync(objs, key_fields, filters, fieldlist, exclude)\<close> on the table of
  \<open>objs[0].__class__\<close>, whose metadata is \<open>m\<close>. The result carries the statistics and the
  instances of \<open>objs\<close> as the call leaves them.
\<close>

definition bulk_sync ::
  "model_meta \<Rightarrow> obj list \<Rightarrow> string list \<Rightarrow> (obj \<Rightarrow> bool) option \<Rightarrow> string list option
     \<Rightarrow> string list option \<Rightarrow> obj list \<Rightarrow> (error + stats \<times> obj list) \<times> obj list" where
  "bulk_sync m objs key_fields filters fieldlist exclude t =
     (if objs = [] then (Inl IndexError, t)
      else atomic (bulk_sync_body m objs key_fields filters (resolve_fields m fieldlist exclude)) t)"

section \<open>resticlib.py\<close>

text \<open>
  The backup tool is outside the program: \<open>subprocess.run\<close> is a parameter that yields,
  for the number of invocations made so far, the repository whose URI, password and
  environment the wrapper was built from, and the argument vector, the completed process.
  \<open>json.loads\<close> is a parameter too; \<open>None\<close> stands for \<open>JSONDecodeError\<close>.
\<close>

record completed_process =
  returncode :: int
  stdout :: string

type_synonym tool = "nat \<Rightarrow> obj \<Rightarrow> string list \<Rightarrow> completed_process"

type_synonym json_loads = "string \<Rightarrow> val option"

record world =
  repositories :: "obj list"
  snapshots :: "obj list"
  snapshot_paths :: "obj list"
  calls :: "string list list"
  clock :: nat

definition call ::
  "tool \<Rightarrow> obj \<Rightarrow> string list \<Rightarrow> string list \<Rightarrow> world \<Rightarrow> (error + string) \<times> world" where
  "call run repo a kw w =
     (let args = ''/usr/bin/restic'' # a @ kw;
          result = run (length (calls w)) repo args;
          w' = w\<lparr>calls := calls w @ [args]\<rparr>
      in if returncode result \<noteq> 0 then (Inl CalledProcessError, w')
         else (Inr (stdout result), w'))"

definition restic_snapshots ::
  "tool \<Rightarrow> json_loads \<Rightarrow> obj \<Rightarrow> world \<Rightarrow> (error + val) \<times> world" where
  "restic_snapshots run loads repo w =
     (case call run repo [''snapshots''] [''--json''] w of
        (Inl e, w') \<Rightarrow> (Inl e, w')
      | (Inr output, w') \<Rightarrow>
          (case loads output of None \<Rightarrow> (Inl JSONDecodeError, w') | Some v \<Rightarrow> (Inr v, w')))"

text \<open>\<open>output.split("\\n")\<close> and the test \<open>x.strip()\<close> (ASCII whitespace).\<close>

fun split_nl :: "string \<Rightarrow> string list" where
  "split_nl [] = [[]]"
| "split_nl (c # cs) =
     (if c = CHR 0x0A then [] # split_nl cs
      else (case split_nl cs of l # ls \<Rightarrow> (c # l) # ls | [] \<Rightarrow> [[c]]))"

definition is_space :: "char \<Rightarrow> bool" where
  "is_space c = (c \<in> set [CHR 0x09, CHR 0x0A, CHR 0x0B, CHR 0x0C, CHR 0x0D,
                            CHR 0x1C, CHR 0x1D, CHR 0x1E, CHR 0x1F, CHR 0x20])"

definition strip_truthy :: "string \<Rightarrow> bool" where
  "strip_truthy x = list_ex (\<lambda>c. \<not> is_space c) x"

fun ls_nodes :: "json_loads \<Rightarrow> string list \<Rightarrow> error + val list" where
  "ls_nodes loads [] = Inr []"
| "ls_nodes loads (x # xs) =
     (case loads x of
        None \<Rightarrow> Inl JSONDecodeError
      | Some (VDict d) \<Rightarrow>
          (case map_of d ''struct_type'' of
             None \<Rightarrow> Inl KeyError
           | Some st \<Rightarrow>
               (case ls_nodes loads xs of
                  Inl e \<Rightarrow> Inl e
                | Inr result \<Rightarrow>
                    Inr (if st = VStr ''node'' then VDict (AList.delete ''struct_type'' d) # result
                         else result)))
      | Some (VList l) \<Rightarrow> Inl TypeError
      | Some v \<Rightarrow> Inl AttributeError)"

definition restic_ls ::
  "tool \<Rightarrow> json_loads \<Rightarrow> obj \<Rightarrow> string \<Rightarrow> string list \<Rightarrow> world \<Rightarrow> (error + val list) \<times> world" where
  "restic_ls run loads repo snapshot args w =
     (case call run repo (''ls'' # snapshot # args) [''--json''] w of
        (Inl e, w') \<Rightarrow> (Inl e, w')
      | (Inr output, w') \<Rightarrow> (ls_nodes loads (filter strip_truthy (split_nl output)), w'))"


section \<open>models.py\<close>

definition plain :: "string \<Rightarrow> val \<Rightarrow> field" where
  "plain n d = \<lparr>name = n, attname = n, primary_key = False, auto_created = False,
                 editable = True, default = d\<rparr>"

definition Snapshot_meta :: model_meta where
  "Snapshot_meta = \<lparr>model_name = ''Snapshot'', meta_fields =
     [\<lparr>name = ''id'', attname = ''id'', primary_key = True, auto_created = False,
        editable = False, default = VStr []\<rparr>,
      \<lparr>name = ''repository'', attname = ''repository_id'', primary_key = False,
        auto_created = False, editable = True, default = VNone\<rparr>,
      plain ''hostname'' (VStr []),
      plain ''username'' (VStr []),
      plain ''paths'' VNone,
      plain ''tags'' VNone,
      plain ''time'' VNone,
      \<lparr>name = ''short_id'', attname = ''short_id'', primary_key = False, auto_created = False,
        editable = False, default = VStr []\<rparr>,
      plain ''parent'' (VStr []),
      plain ''tree'' (VStr []),
      \<lparr>name = ''created_on'', attname = ''created_on'', primary_key = False,
        auto_created = False, editable = False, default = VNone\<rparr>,
      plain ''fetched_on'' VNone,
      plain ''total_size'' VNone,
      plain ''total_file_count'' VNone]\<rparr>"

definition SnapshotPath_meta :: model_meta where
  "SnapshotPath_meta = \<lparr>model_name = ''SnapshotPath'', meta_fields =
     [\<lparr>name = ''id'', attname = ''id'', primary_key = True, auto_created = True,
        editable = True, default = VNone\<rparr>,
      \<lparr>name = ''snapshot'', attname = ''snapshot_id'', primary_key = False,
        auto_created = False, editable = True, default = VNone\<rparr>,
      plain ''name'' (VStr []),
      plain ''type'' (VStr []),
      plain ''path'' (VStr []),
      plain ''uid'' VNone,
      plain ''gid'' VNone,
      plain ''size'' VNone,
      plain ''mode'' VNone,
      plain ''mtime'' VNone,
      plain ''atime'' VNone,
      plain ''ctime'' VNone,
      plain ''fetched_on'' VNone]\<rparr>"

text \<open>
  \<open>cls(**kwargs)\<close>: every field starts at its default, a keyword must name a field (by
  name or column) or be \<open>pk\<close>, and is stored under the field's column name.
\<close>

definition blank :: "model_meta \<Rightarrow> obj" where
  "blank m = (\<lambda>a. case find (\<lambda>f. attname f = a) (meta_fields m) of
                     Some f \<Rightarrow> default f | None \<Rightarrow> VNone)"

definition kw_attname :: "model_meta \<Rightarrow> string \<Rightarrow> string" where
  "kw_attname m k =
     (if k = ''pk'' then pk_attname m
      else (case get_field m k of Some f \<Rightarrow> attname f | None \<Rightarrow> k))"

definition model_init :: "model_meta \<Rightarrow> (string \<times> val) list \<Rightarrow> error + obj" where
  "model_init m kwargs =
     (if list_ex (\<lambda>kv. get_field m (fst kv) = None \<and> fst kv \<noteq> ''pk'') kwargs then Inl TypeError
      else Inr (foldl (\<lambda>ob kv. ob(kw_attname m (fst kv) := snd kv)) (blank m) kwargs))"

definition timezone_now :: "world \<Rightarrow> val \<times> world" where
  "timezone_now w = (VTime (clock w), w\<lparr>clock := Suc (clock w)\<rparr>)"

text \<open>
  \<open>Model.save()\<close>: the row with the instance's primary key takes all its values; without
  such a row the instance is inserted.
\<close>

definition save :: "string \<Rightarrow> obj \<Rightarrow> obj list \<Rightarrow> obj \<times> obj list" where
  "save pk self t =
     (if self pk = VNone then (self(pk := next_pk pk t), t @ [self(pk := next_pk pk t)])
      else if self pk \<in> set (map (\<lambda>r. r pk) t)
        then (self, map (\<lambda>r. if r pk = self pk then self else r) t)
      else (self, t @ [self]))"

text \<open>Iterating over a Python value in a list comprehension.\<close>

fun iterate :: "val \<Rightarrow> error + val list" where
  "iterate (VList xs) = Inr xs"
| "iterate (VDict kvs) = Inr (map (\<lambda>kv. VStr (fst kv)) kvs)"
| "iterate (VStr s) = Inr (map (\<lambda>c. VStr [c]) s)"
| "iterate v = Inl TypeError"

text \<open>
  \<open>Snapshot.from_restic\<close>: \<open>cls(**object, fetched_on=timezone.now(), repository=repository)\<close>.
\<close>

definition Snapshot_from_restic :: "val \<Rightarrow> obj \<Rightarrow> world \<Rightarrow> (error + obj) \<times> world" where
  "Snapshot_from_restic object repository w =
     (case timezone_now w of (now, w') \<Rightarrow>
        (case object of
           VDict kwargs \<Rightarrow>
             (if list_ex (\<lambda>kv. fst kv = ''fetched_on'' \<or> fst kv = ''repository'') kwargs
              then (Inl TypeError, w')
              else (model_init Snapshot_meta
                      (kwargs @ [(''fetched_on'', now), (''repository'', repository ''id'')]), w'))
         | v \<Rightarrow> (Inl TypeError, w')))"

fun Snapshot_from_restic_all ::
  "val list \<Rightarrow> obj \<Rightarrow> world \<Rightarrow> (error + obj list) \<times> world" where
  "Snapshot_from_restic_all [] repository w = (Inr [], w)"
| "Snapshot_from_restic_all (s # ss) repository w =
     (case Snapshot_from_restic s repository w of
        (Inl e, w') \<Rightarrow> (Inl e, w')
      | (Inr ob, w') \<Rightarrow>
          (case Snapshot_from_restic_all ss repository w' of
             (Inl e, w'') \<Rightarrow> (Inl e, w'')
           | (Inr obs, w'') \<Rightarrow> (Inr (ob # obs), w'')))"

text \<open>\<open>SnapshotPath.from_restic\<close>: \<open>cls(**object, snapshot=snapshot)\<close>.\<close>

definition SnapshotPath_from_restic :: "val \<Rightarrow> obj \<Rightarrow> error + obj" where
  "SnapshotPath_from_restic object snapshot =
     (case object of
        VDict kwargs \<Rightarrow>
          (if list_ex (\<lambda>kv. fst kv = ''snapshot'') kwargs then Inl TypeError
           else model_init SnapshotPath_meta (kwargs @ [(''snapshot'', snapshot ''id'')]))
      | v \<Rightarrow> Inl TypeError)"

fun SnapshotPath_from_restic_all :: "val list \<Rightarrow> obj \<Rightarrow> error + obj list" where
  "SnapshotPath_from_restic_all [] snapshot = Inr []"
| "SnapshotPath_from_restic_all (f # fs) snapshot =
     (case SnapshotPath_from_restic f snapshot of
        Inl e \<Rightarrow> Inl e
      | Inr ob \<Rightarrow>
          (case SnapshotPath_from_restic_all fs snapshot of
             Inl e \<Rightarrow> Inl e
           | Inr obs \<Rightarrow> Inr (ob # obs)))"


subsection \<open>Repository\<close>

text \<open>
  \<open>Repository.sync_snapshots\<close>. The scope \<open>Q(repository=self)\<close> compares the foreign-key
  column with the repository's primary key. Deleting a snapshot cascades to its paths. The
  result is \<open>self.snapshot_set.all()\<close> (in table order; the model's ordering by time is not
  modelled), together with the repository instance and the world after the call.
\<close>

definition sync_snapshots ::
  "tool \<Rightarrow> json_loads \<Rightarrow> obj \<Rightarrow> world \<Rightarrow> (error + obj list) \<times> obj \<times> world" where
  "sync_snapshots run loads self w =
     (case restic_snapshots run loads self w of
        (Inl e, w1) \<Rightarrow> (Inl e, self, w1)
      | (Inr v, w1) \<Rightarrow>
     (case iterate v of
        Inl e \<Rightarrow> (Inl e, self, w1)
      | Inr ss \<Rightarrow>
     (case Snapshot_from_restic_all ss self w1 of
        (Inl e, w2) \<Rightarrow> (Inl e, self, w2)
      | (Inr snaps, w2) \<Rightarrow>
     (case bulk_sync Snapshot_meta snaps [''id'']
             (Some (\<lambda>r. r ''repository_id'' = self ''id'')) None
             (Some [''total_size'', ''total_file_count'']) (snapshots w2) of
        (Inl e, t') \<Rightarrow> (Inl e, self, w2\<lparr>snapshots := t'\<rparr>)
      | (Inr res, t') \<Rightarrow>
          (case timezone_now
                  (w2\<lparr>snapshots := t',
                      snapshot_paths :=
                        filter (\<lambda>p. p ''snapshot_id'' \<notin> set (map (\<lambda>r. r ''id'') (snapshots w2))
                                     \<or> p ''snapshot_id'' \<in> set (map (\<lambda>r. r ''id'') t'))
                          (snapshot_paths w2)\<rparr>) of
             (now, w3) \<Rightarrow>
               (case save ''id'' (self(''fetched_on'' := now)) (repositories w3) of
                  (self', reps) \<Rightarrow>
                    (Inr (filter (\<lambda>r. r ''repository_id'' = self' ''id'') (snapshots w3)),
                     self', w3\<lparr>repositories := reps\<rparr>)))))))"


subsection \<open>Snapshot and SnapshotPath\<close>

definition get_by_pk :: "obj list \<Rightarrow> val \<Rightarrow> error + obj" where
  "get_by_pk t p = (case find (\<lambda>r. r ''id'' = p) t of None \<Rightarrow> Inl DoesNotExist | Some r \<Rightarrow> Inr r)"



fun startswith :: "val \<Rightarrow> val \<Rightarrow> bool" where
  "startswith (VStr s) (VStr p) = prefix p s"
| "startswith v p = False"

definition children_q :: "obj \<Rightarrow> obj \<Rightarrow> bool" where
  "children_q self r =
     (r ''snapshot_id'' = self ''snapshot_id'' \<and> startswith (r ''path'') (self ''path'')
      \<and> \<not> (r ''id'' = self ''id''))"

text \<open>
  \<open>SnapshotPath.get_children\<close>. The result is the returned children, the node instance
  and the world after the call.
\<close>

definition get_children ::
  "tool \<Rightarrow> json_loads \<Rightarrow> obj \<Rightarrow> bool \<Rightarrow> world \<Rightarrow> (error + obj list) \<times> obj \<times> world" where
  "get_children run loads self force_sync w =
     (case get_by_pk (snapshots w) (self ''snapshot_id'') of
        Inl e \<Rightarrow> (Inl e, self, w)
      | Inr snapshot \<Rightarrow>
     (case get_by_pk (repositories w) (snapshot ''repository_id'') of
        Inl e \<Rightarrow> (Inl e, self, w)
      | Inr repo \<Rightarrow>
     (if truthy (self ''fetched_on'') \<and> \<not> force_sync
      then (Inr (filter (children_q self) (snapshot_paths w)), self, w)
      else
     (case (self ''snapshot_id'', self ''path'') of
        (VStr sid, VStr path) \<Rightarrow>
          (case restic_ls run loads repo sid [path] w of
             (Inl e, w1) \<Rightarrow> (Inl e, self, w1)
           | (Inr nodes, w1) \<Rightarrow>
          (case SnapshotPath_from_restic_all nodes snapshot of
             Inl e \<Rightarrow> (Inl e, self, w1)
           | Inr files \<Rightarrow>
          (case bulk_sync SnapshotPath_meta files [''snapshot_id'', ''path'']
                  (Some (children_q self)) None None (snapshot_paths w1) of
             (Inl e, t') \<Rightarrow> (Inl e, self, w1\<lparr>snapshot_paths := t'\<rparr>)
           | (Inr res, t') \<Rightarrow>
               (case timezone_now (w1\<lparr>snapshot_paths := t'\<rparr>) of
                  (now, w2) \<Rightarrow>
                    (case save ''id'' (self(''fetched_on'' := now)) (snapshot_paths w2) of
                       (self', t'') \<Rightarrow>
                         (Inr (snd res), self', w2\<lparr>snapshot_paths := t''\<rparr>))))))
      | v \<Rightarrow> (Inl TypeError, self, w)))))"




section \<open>Well-formedness of the store and example data\<close>

text \<open>
  What the database guarantees of a table (primary keys are pairwise distinct and not null)
  and what Django guarantees of a model (one column per field, and a primary key field).
\<close>

definition wf_table :: "string \<Rightarrow> obj list \<Rightarrow> bool" where
  "wf_table pk t = (distinct (map (\<lambda>r. r pk) t) \<and> \<not> list_ex (\<lambda>r. r pk = VNone) t)"

definition wf_meta :: "model_meta \<Rightarrow> bool" where
  "wf_meta m = (distinct (map attname (meta_fields m)) \<and> list_ex primary_key (meta_fields m))"

definition tables :: "world \<Rightarrow> obj list \<times> obj list \<times> obj list" where
  "tables w = (repositories w, snapshots w, snapshot_paths w)"

text \<open>Concrete data for the instances evaluated below.\<close>

definition example_repo :: obj where
  "example_repo = (\<lambda>a. VNone)(''id'' := VInt 1)"

definition example_snapshot :: "string \<Rightarrow> string \<Rightarrow> val \<Rightarrow> obj" where
  "example_snapshot sid host sz =
     (\<lambda>a. VNone)(''id'' := VStr sid, ''repository_id'' := VInt 1, ''hostname'' := VStr host,
        ''tags'' := VList [VStr host], ''total_size'' := sz)"

definition example_path :: "int \<Rightarrow> string \<Rightarrow> val \<Rightarrow> obj" where
  "example_path i p fetched =
     (\<lambda>a. VNone)(''id'' := VInt i, ''snapshot_id'' := VStr ''a'', ''path'' := VStr p,
        ''fetched_on'' := fetched)"

definition example_world :: world where
  "example_world =
     \<lparr>repositories = [example_repo],
      snapshots = [example_snapshot ''a'' ''old'' (VInt 500), example_snapshot ''b'' ''old'' (VInt 7)],
      snapshot_paths = [example_path 1 ''/'' VNone, example_path 2 ''/etc'' VNone],
      calls = [], clock = 0\<rparr>"

definition example_tool :: "string \<Rightarrow> int \<Rightarrow> tool" where
  "example_tool out rc n repo args = \<lparr>returncode = rc, stdout = out\<rparr>"

definition example_loads :: json_loads where
  "example_loads s =
     (if s = ''S'' then
        Some (VList [VDict [(''id'', VStr ''a''), (''hostname'', VStr ''new''),
                            (''tags'', VList [VStr ''new''])],
                     VDict [(''id'', VStr ''c''), (''hostname'', VStr ''new''),
                            (''tags'', VList [VStr ''new''])]])
      else if s = ''E'' then Some (VList [])
      else if s = ''N'' then
        Some (VDict [(''struct_type'', VStr ''node''), (''path'', VStr ''/etc''),
                     (''name'', VStr ''etc''), (''type'', VStr ''dir'')])
      else if s = ''T'' then Some (VDict [(''total_size'', VInt 9), (''total_file_count'', VInt 2)])
      else None)"







section \<open>The dictionary of existing rows and the loop over the desired records\<close>

lemma dict_of_snoc:
  "dict_of ks (rows @ [r]) = AList.update (get_key ks r) r (dict_of ks rows)"
  by (simp add: dict_of_def)

lemma dict_of_Nil: "dict_of ks [] = []"
  by (simp add: dict_of_def)

lemma map_of_dict_of_snoc:
  "map_of (dict_of ks (rows @ [r])) = (map_of (dict_of ks rows))(get_key ks r \<mapsto> r)"
  by (simp only: dict_of_snoc update_conv')

lemma dict_of_distinct: "distinct (map fst (dict_of ks rows))"
  by (induction rows rule: rev_induct) (simp_all add: dict_of_Nil dict_of_snoc distinct_update)

lemma dict_of_sound:
  "map_of (dict_of ks rows) k = Some r \<Longrightarrow> r \<in> set rows \<and> get_key ks r = k"
proof (induction rows rule: rev_induct)
  case Nil
  then show ?case by (simp add: dict_of_Nil)
next
  case (snoc x xs)
  show ?case
  proof (cases "k = get_key ks x")
    case True
    then show ?thesis using snoc.prems by (simp add: map_of_dict_of_snoc)
  next
    case False
    then have "map_of (dict_of ks xs) k = Some r"
      using snoc.prems by (simp add: map_of_dict_of_snoc)
    then show ?thesis using snoc.IH by simp
  qed
qed

lemma dict_of_dom: "dom (map_of (dict_of ks rows)) = get_key ks ` set rows"
proof (induction rows rule: rev_induct)
  case Nil
  then show ?case by (simp add: dict_of_Nil)
next
  case (snoc x xs)
  have "dom (map_of (dict_of ks (xs @ [x]))) = insert (get_key ks x) (dom (map_of (dict_of ks xs)))"
    by (simp only: map_of_dict_of_snoc dom_fun_upd) simp
  then show ?case using snoc.IH by simp
qed

lemma dict_of_complete:
  "distinct (map (get_key ks) rows) \<Longrightarrow> r \<in> set rows
   \<Longrightarrow> map_of (dict_of ks rows) (get_key ks r) = Some r"
proof (induction rows rule: rev_induct)
  case Nil
  then show ?case by simp
next
  case (snoc x xs)
  show ?case
  proof (cases "r = x")
    case True
    then show ?thesis by (simp add: map_of_dict_of_snoc)
  next
    case False
    then have mem: "r \<in> set xs" using snoc.prems(2) by simp
    have "get_key ks x \<notin> get_key ks ` set xs" using snoc.prems(1) by simp
    then have "get_key ks r \<noteq> get_key ks x" using mem by (metis imageI)
    moreover have "map_of (dict_of ks xs) (get_key ks r) = Some r"
      using snoc.IH mem snoc.prems(1) by simp
    ultimately show ?thesis by (simp add: map_of_dict_of_snoc)
  qed
qed

lemma classify_length:
  "classify pk ks objs d = (tagged, d') \<Longrightarrow> length tagged = length objs"
  by (induction objs arbitrary: d tagged d') (auto split: option.splits prod.splits)

lemma classify_rest:
  "classify pk ks objs d = (tagged, d')
   \<Longrightarrow> map_of d' k = (if k \<in> get_key ks ` set objs then None else map_of d k)"
  by (induction objs arbitrary: d tagged d')
     (auto simp: delete_conv' split: option.splits prod.splits)

lemma classify_rest_distinct:
  "classify pk ks objs d = (tagged, d') \<Longrightarrow> distinct (map fst d) \<Longrightarrow> distinct (map fst d')"
  by (induction objs arbitrary: d tagged d')
     (auto simp: distinct_delete split: option.splits prod.splits)

lemma classify_new:
  "classify pk ks objs d = (tagged, d') \<Longrightarrow> (True, x) \<in> set tagged \<Longrightarrow> x \<in> set objs"
proof (induction objs arbitrary: d tagged d')
  case Nil
  then show ?case by simp
next
  case (Cons a objs)
  show ?case
  proof (cases "map_of d (get_key ks a)")
    case None
    then obtain tg where c: "classify pk ks objs d = (tg, d')" and t: "tagged = (True, a) # tg"
      using Cons.prems(1) by (auto split: prod.splits)
    show ?thesis
    proof (cases "x = a")
      case True
      then show ?thesis by simp
    next
      case False
      then have "(True, x) \<in> set tg" using Cons.prems(2) t by simp
      from Cons.IH [OF c this] show ?thesis by simp
    qed
  next
    case (Some e)
    then obtain tg where c: "classify pk ks objs (AList.delete (get_key ks a) d) = (tg, d')"
      and t: "tagged = (False, a(pk := e pk)) # tg"
      using Cons.prems(1) by (auto split: prod.splits)
    then have "(True, x) \<in> set tg" using Cons.prems(2) by simp
    from Cons.IH [OF c this] show ?thesis by simp
  qed
qed

lemma classify_upd:
  "classify pk ks objs d = (tagged, d') \<Longrightarrow> (False, x) \<in> set tagged
   \<Longrightarrow> \<exists>ob\<in>set objs. \<exists>e. map_of d (get_key ks ob) = Some e \<and> x = ob(pk := e pk)"
proof (induction objs arbitrary: d tagged d')
  case Nil
  then show ?case by simp
next
  case (Cons a objs)
  show ?case
  proof (cases "map_of d (get_key ks a)")
    case None
    then obtain tg where c: "classify pk ks objs d = (tg, d')" and t: "tagged = (True, a) # tg"
      using Cons.prems(1) by (auto split: prod.splits)
    then have "(False, x) \<in> set tg" using Cons.prems(2) by simp
    from Cons.IH [OF c this] show ?thesis by auto
  next
    case (Some e)
    then obtain tg where c: "classify pk ks objs (AList.delete (get_key ks a) d) = (tg, d')"
      and t: "tagged = (False, a(pk := e pk)) # tg"
      using Cons.prems(1) by (auto split: prod.splits)
    show ?thesis
    proof (cases "x = a(pk := e pk)")
      case True
      then show ?thesis using Some by auto
    next
      case False
      then have "(False, x) \<in> set tg" using Cons.prems(2) t by simp
      from Cons.IH [OF c this] obtain ob e' where
        o: "ob \<in> set objs" "map_of (AList.delete (get_key ks a) d) (get_key ks ob) = Some e'"
        "x = ob(pk := e' pk)" by blast
      have "map_of d (get_key ks ob) = Some e'"
        using o(2) by (cases "get_key ks ob = get_key ks a") (simp_all add: delete_conv')
      then show ?thesis using o(1,3) by auto
    qed
  qed
qed

lemma classify_matched:
  "classify pk ks objs d = (tagged, d') \<Longrightarrow> ob \<in> set objs
   \<Longrightarrow> map_of d (get_key ks ob) = Some e
   \<Longrightarrow> \<exists>x. (False, x) \<in> set tagged \<and> x pk = e pk \<and> (\<exists>ob'\<in>set objs. get_key ks ob' = get_key ks ob \<and> x = ob'(pk := e pk))"
proof (induction objs arbitrary: d tagged d')
  case Nil
  then show ?case by simp
next
  case (Cons a objs)
  show ?case
  proof (cases "get_key ks a = get_key ks ob")
    case True
    then obtain tg where "tagged = (False, a(pk := e pk)) # tg"
      using Cons.prems by (auto split: prod.splits)
    then show ?thesis using True by auto
  next
    case False
    then have mem: "ob \<in> set objs" using Cons.prems(2) by auto
    show ?thesis
    proof (cases "map_of d (get_key ks a)")
      case None
      then obtain tg where c: "classify pk ks objs d = (tg, d')" and t: "tagged = (True, a) # tg"
        using Cons.prems(1) by (auto split: prod.splits)
      from Cons.IH [OF c mem Cons.prems(3)] show ?thesis using t by auto
    next
      case (Some e')
      then obtain tg where c: "classify pk ks objs (AList.delete (get_key ks a) d) = (tg, d')"
        and t: "tagged = (False, a(pk := e' pk)) # tg"
        using Cons.prems(1) by (auto split: prod.splits)
      have "map_of (AList.delete (get_key ks a) d) (get_key ks ob) = Some e"
        using False Cons.prems(3) by (simp add: delete_conv')
      from Cons.IH [OF c mem this] show ?thesis using t by auto
    qed
  qed
qed

lemma classify_all_matched:
  "classify pk ks objs d = (tagged, d') \<Longrightarrow> distinct (map (get_key ks) objs)
   \<Longrightarrow> get_key ks ` set objs \<subseteq> dom (map_of d) \<Longrightarrow> filter fst tagged = []"
proof (induction objs arbitrary: d tagged d')
  case Nil
  then show ?case by simp
next
  case (Cons a objs)
  from Cons.prems(3) obtain e where e: "map_of d (get_key ks a) = Some e" by auto
  then obtain tg where c: "classify pk ks objs (AList.delete (get_key ks a) d) = (tg, d')"
    and t: "tagged = (False, a(pk := e pk)) # tg"
    using Cons.prems(1) by (auto split: prod.splits)
  have "get_key ks ` set objs \<subseteq> dom (map_of (AList.delete (get_key ks a) d))"
  proof
    fix k assume k: "k \<in> get_key ks ` set objs"
    moreover have "get_key ks a \<notin> get_key ks ` set objs" using Cons.prems(2) by simp
    ultimately have "k \<noteq> get_key ks a" by metis
    moreover have "k \<in> dom (map_of d)" using k Cons.prems(3) by auto
    ultimately show "k \<in> dom (map_of (AList.delete (get_key ks a) d))"
      by (simp add: delete_conv' dom_def)
  qed
  from Cons.IH [OF c _ this] Cons.prems(2) t show ?case by simp
qed

section \<open>Inserts keep the table well-formed\<close>

lemma wf_table_iff:
  "wf_table pk t \<longleftrightarrow> distinct (map (\<lambda>r. r pk) t) \<and> (\<forall>r\<in>set t. r pk \<noteq> VNone)"
  by (auto simp: wf_table_def list_ex_iff)

lemma wf_table_same_pk:
  "wf_table pk t \<Longrightarrow> r \<in> set t \<Longrightarrow> r' \<in> set t \<Longrightarrow> r pk = r' pk \<Longrightarrow> r = r'"
  by (metis wf_table_iff distinct_map inj_on_def)

lemma next_pk_bound:
  "r \<in> set t \<Longrightarrow> int_of_val (r pk) \<le> foldr (\<lambda>r n. max (int_of_val (r pk)) n) t 0"
  by (induction t) auto

lemma next_pk_fresh: "r \<in> set t \<Longrightarrow> r pk \<noteq> next_pk pk t"
proof
  assume r: "r \<in> set t" and eq: "r pk = next_pk pk t"
  from eq have "int_of_val (r pk) = 1 + foldr (\<lambda>r n. max (int_of_val (r pk)) n) t 0"
    by (simp add: next_pk_def)
  with next_pk_bound [OF r, of pk] show False by simp
qed

lemma next_pk_not_None: "next_pk pk t \<noteq> VNone"
  by (simp add: next_pk_def)

lemma wf_table_snoc:
  "wf_table pk t \<Longrightarrow> x pk \<noteq> VNone \<Longrightarrow> x pk \<notin> set (map (\<lambda>r. r pk) t) \<Longrightarrow> wf_table pk (t @ [x])"
  by (auto simp: wf_table_iff)

lemma insert_with_pk_ok:
  "insert_with_pk pk obs t = (Inr u, t1) \<Longrightarrow> wf_table pk t
   \<Longrightarrow> t1 = t @ filter (\<lambda>ob. ob pk \<noteq> VNone) obs \<and> wf_table pk t1"
proof (induction obs arbitrary: t)
  case Nil
  then show ?case by simp
next
  case (Cons a obs)
  show ?case
  proof (cases "a pk = VNone")
    case True
    then show ?thesis using Cons by simp
  next
    case False
    then have nin: "a pk \<notin> set (map (\<lambda>r. r pk) t)"
      and rec: "insert_with_pk pk obs (t @ [a]) = (Inr u, t1)"
      using Cons.prems(1) by (auto split: if_splits)
    have "wf_table pk (t @ [a])" using wf_table_snoc [of pk t a] Cons.prems(2) False nin by simp
    from Cons.IH [OF rec this] show ?thesis using False by auto
  qed
qed

lemma insert_without_pk_ok:
  "insert_without_pk pk obs t = (obs', t') \<Longrightarrow> wf_table pk t
   \<Longrightarrow> \<exists>added. t' = t @ added \<and> set obs' = {ob \<in> set obs. ob pk \<noteq> VNone} \<union> set added
        \<and> wf_table pk t' \<and> length obs' = length obs"
proof (induction obs arbitrary: t obs' t')
  case Nil
  then show ?case by simp
next
  case (Cons a obs)
  show ?case
  proof (cases "a pk = VNone")
    case True
    define a' where "a' = a(pk := next_pk pk t)"
    obtain os1 where rec: "insert_without_pk pk obs (t @ [a']) = (os1, t')"
      and o: "obs' = a' # os1"
      using Cons.prems(1) True by (auto simp: a'_def split: prod.splits)
    have "a' pk \<noteq> VNone" by (simp add: a'_def next_pk_not_None)
    moreover have "a' pk \<notin> set (map (\<lambda>r. r pk) t)"
    proof
      assume "a' pk \<in> set (map (\<lambda>r. r pk) t)"
      then obtain r where r: "r \<in> set t" "r pk = a' pk" by auto
      then have "r pk = next_pk pk t" by (simp add: a'_def)
      with next_pk_fresh [of r t pk] r(1) show False by simp
    qed
    ultimately have "wf_table pk (t @ [a'])"
      using wf_table_snoc [of pk t a'] Cons.prems(2) by simp
    from Cons.IH [OF rec this] obtain added where
      a: "t' = (t @ [a']) @ added" "set os1 = {ob \<in> set obs. ob pk \<noteq> VNone} \<union> set added"
         "wf_table pk t'" "length os1 = length obs" by blast
    have "t' = t @ (a' # added)" using a(1) by simp
    moreover have "set obs' = {ob \<in> set (a # obs). ob pk \<noteq> VNone} \<union> set (a' # added)"
      using a(2) o True by auto
    ultimately show ?thesis using a(3,4) o by (intro exI [of _ "a' # added"]) simp
  next
    case False
    obtain os1 where rec: "insert_without_pk pk obs t = (os1, t')" and o: "obs' = a # os1"
      using Cons.prems(1) False by (auto split: prod.splits)
    from Cons.IH [OF rec Cons.prems(2)] obtain added where
      a: "t' = t @ added" "set os1 = {ob \<in> set obs. ob pk \<noteq> VNone} \<union> set added"
         "wf_table pk t'" "length os1 = length obs" by blast
    have "set obs' = {ob \<in> set (a # obs). ob pk \<noteq> VNone} \<union> set added"
      using a(2) o False by auto
    then show ?thesis using a(1,3,4) o by (intro exI [of _ added]) simp
  qed
qed

lemma bulk_create_ok:
  assumes "bulk_create pk objs t = (Inr objs', t1)" and "wf_table pk t"
  shows "\<exists>added. t1 = t @ added \<and> set added = set objs'"
    and "wf_table pk t1" and "length objs' = length objs"
proof -
  obtain u ta where p1: "insert_with_pk pk objs t = (Inr u, ta)"
    and p2: "insert_without_pk pk objs ta = (objs', t1)"
    using assms(1) by (auto simp: bulk_create_def split: prod.splits sum.splits)
  from insert_with_pk_ok [OF p1 assms(2)]
  have ta: "ta = t @ filter (\<lambda>ob. ob pk \<noteq> VNone) objs" and wa: "wf_table pk ta" by auto
  from insert_without_pk_ok [OF p2 wa] obtain added where
    a: "t1 = ta @ added" "set objs' = {ob \<in> set objs. ob pk \<noteq> VNone} \<union> set added"
       "wf_table pk t1" "length objs' = length objs" by blast
  have "t1 = t @ (filter (\<lambda>ob. ob pk \<noteq> VNone) objs @ added)" using a(1) ta by simp
  moreover have "set (filter (\<lambda>ob. ob pk \<noteq> VNone) objs @ added) = set objs'" using a(2) by auto
  ultimately show "\<exists>added. t1 = t @ added \<and> set added = set objs'" by blast
  show "wf_table pk t1" by (rule a(3))
  show "length objs' = length objs" by (rule a(4))
qed

lemma reassemble_set:
  "length ns = length (filter fst tagged)
   \<Longrightarrow> set (reassemble tagged ns) = set ns \<union> set (map snd (filter (\<lambda>x. \<not> fst x) tagged))"
proof (induction tagged ns rule: reassemble.induct)
  case (1 ns)
  then show ?case by simp
next
  case (2 ob tagged n ns)
  then show ?case by auto
next
  case (3 ob tagged)
  then show ?case by simp
next
  case (4 ob tagged ns)
  then show ?case by auto
qed

lemma reassemble_length: "length (reassemble tagged ns) = length tagged"
  by (induction tagged ns rule: reassemble.induct) simp_all

section \<open>A successful reconcile\<close>

lemma bulk_sync_body_InrE:
  assumes "bulk_sync_body m objs ks filters fl t = (Inr (st, objs'), t3)"
  obtains tagged d' new' t1 where
    "classify (pk_attname m) ks objs (dict_of ks (subset_qs filters t)) = (tagged, d')"
    "bulk_create (pk_attname m) (map snd (filter fst tagged)) t = (Inr new', t1)"
    "fst (bulk_update m (map snd (filter (\<lambda>x. \<not> fst x) tagged)) fl t1) = Inr ()"
    "t3 = filter (\<lambda>r. \<not> (in_scope filters r
            \<and> r (pk_attname m) \<in> set (map (\<lambda>kv. snd kv (pk_attname m)) d')))
          (map (update_row (pk_attname m) (field_attnames m fl)
                  (map snd (filter (\<lambda>x. \<not> fst x) tagged))) t1)"
    "objs' = reassemble tagged new'"
    "st = \<lparr>created = int (length new'), updated = int (length objs) - int (length new'),
           deleted = int (length d')\<rparr>"
proof -
  obtain tagged d' where c: "classify (pk_attname m) ks objs (dict_of ks (subset_qs filters t)) = (tagged, d')"
    by (cases "classify (pk_attname m) ks objs (dict_of ks (subset_qs filters t))") auto
  obtain rc t1 where bc: "bulk_create (pk_attname m) (map snd (filter fst tagged)) t = (rc, t1)"
    by (cases "bulk_create (pk_attname m) (map snd (filter fst tagged)) t") auto
  obtain new' where rc: "rc = Inr new'"
    using assms c bc by (cases rc) (auto simp: bulk_sync_body_def)
  obtain ru t2 where bu: "bulk_update m (map snd (filter (\<lambda>x. \<not> fst x) tagged)) fl t1 = (ru, t2)"
    by (cases "bulk_update m (map snd (filter (\<lambda>x. \<not> fst x) tagged)) fl t1") auto
  have ru: "ru = Inr ()"
    using assms c bc rc bu by (cases ru) (auto simp: bulk_sync_body_def)
  have t2: "t2 = map (update_row (pk_attname m) (field_attnames m fl)
                  (map snd (filter (\<lambda>x. \<not> fst x) tagged))) t1"
    using bu ru by (auto simp: bulk_update_def split: if_splits)
  show thesis
  proof (rule that [OF c])
    show "bulk_create (pk_attname m) (map snd (filter fst tagged)) t = (Inr new', t1)"
      using bc rc by simp
    show "fst (bulk_update m (map snd (filter (\<lambda>x. \<not> fst x) tagged)) fl t1) = Inr ()"
      using bu ru by simp
    show "t3 = filter (\<lambda>r. \<not> (in_scope filters r
            \<and> r (pk_attname m) \<in> set (map (\<lambda>kv. snd kv (pk_attname m)) d')))
          (map (update_row (pk_attname m) (field_attnames m fl)
                  (map snd (filter (\<lambda>x. \<not> fst x) tagged))) t1)"
      using assms c bc rc bu ru t2
      by (auto simp: bulk_sync_body_def Let_def split: if_splits)
    show "objs' = reassemble tagged new'"
      using assms c bc rc bu ru
      by (auto simp: bulk_sync_body_def Let_def split: if_splits)
    show "st = \<lparr>created = int (length new'), updated = int (length objs) - int (length new'),
           deleted = int (length d')\<rparr>"
      using assms c bc rc bu ru
      by (auto simp: bulk_sync_body_def Let_def split: if_splits)
  qed
qed

lemma bulk_update_pk_untouched:
  assumes "fst (bulk_update m upd fl t1) = Inr u" and "wf_meta m"
  shows "pk_attname m \<notin> set (field_attnames m fl)"
proof
  assume "pk_attname m \<in> set (field_attnames m fl)"
  then obtain n where n: "n \<in> set fl"
    and eq: "(case get_field m n of Some f \<Rightarrow> attname f | None \<Rightarrow> n) = pk_attname m"
    by (auto simp: field_attnames_def)
  have v1: "\<not> list_ex (\<lambda>n. get_field m n = None) fl"
    and v2: "\<not> list_ex (\<lambda>n. case get_field m n of Some f \<Rightarrow> primary_key f | None \<Rightarrow> False) fl"
    using assms(1) by (auto simp: bulk_update_def split: if_splits)
  from v1 n obtain f where f: "get_field m n = Some f" by (auto simp: list_ex_iff)
  from v2 n f have npk: "\<not> primary_key f" by (auto simp: list_ex_iff)
  from f have fin: "f \<in> set (meta_fields m)"
    by (auto simp: get_field_def find_Some_iff)
  from assms(2) obtain fp where fp: "find primary_key (meta_fields m) = Some fp"
    by (cases "find primary_key (meta_fields m)") (auto simp: wf_meta_def list_ex_iff find_None_iff)
  then have fpin: "fp \<in> set (meta_fields m)" and fppk: "primary_key fp"
    by (auto simp: find_Some_iff)
  have "attname f = attname fp" using eq f fp by (simp add: pk_attname_def)
  with assms(2) fin fpin have "f = fp"
    by (auto simp: wf_meta_def distinct_map inj_on_def)
  with npk fppk show False by simp
qed

lemma update_row_pk:
  "pk \<notin> set atts \<Longrightarrow> update_row pk atts upd r pk = r pk"
  by (simp add: update_row_def overwrite_def split: option.splits)

lemma update_row_other:
  "a \<notin> set atts \<Longrightarrow> update_row pk atts upd r a = r a"
  by (simp add: update_row_def overwrite_def split: option.splits)

lemma update_row_miss:
  "\<forall>x\<in>set upd. x pk \<noteq> r pk \<Longrightarrow> update_row pk atts upd r = r"
proof -
  assume a: "\<forall>x\<in>set upd. x pk \<noteq> r pk"
  have "find (\<lambda>ob. ob pk = r pk) upd = None"
    using a by (simp add: find_None_iff)
  then show ?thesis by (simp add: update_row_def)
qed

lemma update_row_hit:
  assumes "x \<in> set upd" and "x pk = r pk"
  shows "\<exists>y\<in>set upd. y pk = r pk \<and> update_row pk atts upd r = overwrite atts y r"
proof -
  have "find (\<lambda>ob. ob pk = r pk) upd \<noteq> None"
    using assms by (auto simp: find_None_iff)
  then obtain y where y: "find (\<lambda>ob. ob pk = r pk) upd = Some y" by auto
  then have "y \<in> set upd" and "y pk = r pk"
    by (auto simp: find_Some_iff)
  then show ?thesis using y by (auto simp: update_row_def)
qed

lemma get_key_eq_iff: "get_key ks x = get_key ks y \<longleftrightarrow> (\<forall>k\<in>set ks. x k = y k)"
  by (simp add: get_key_def)

lemma insert_without_pk_origin:
  "insert_without_pk pk obs t = (obs', t') \<Longrightarrow> y \<in> set obs'
   \<Longrightarrow> \<exists>ob\<in>set obs. \<forall>a. a \<noteq> pk \<longrightarrow> y a = ob a"
proof (induction obs arbitrary: t obs' t')
  case Nil
  then show ?case by simp
next
  case (Cons b obs)
  show ?case
  proof (cases "b pk = VNone")
    case True
    then obtain os1 where rec: "insert_without_pk pk obs (t @ [b(pk := next_pk pk t)]) = (os1, t')"
      and o: "obs' = b(pk := next_pk pk t) # os1"
      using Cons.prems(1) by (auto split: prod.splits)
    show ?thesis
    proof (cases "y = b(pk := next_pk pk t)")
      case True
      then show ?thesis by auto
    next
      case False
      then have "y \<in> set os1" using Cons.prems(2) o by simp
      from Cons.IH [OF rec this] show ?thesis by auto
    qed
  next
    case False
    then obtain os1 where rec: "insert_without_pk pk obs t = (os1, t')" and o: "obs' = b # os1"
      using Cons.prems(1) by (auto split: prod.splits)
    show ?thesis
    proof (cases "y = b")
      case True
      then show ?thesis by auto
    next
      case False
      then have "y \<in> set os1" using Cons.prems(2) o by simp
      from Cons.IH [OF rec this] show ?thesis by auto
    qed
  qed
qed

lemma bulk_create_origin:
  assumes "bulk_create pk objs t = (Inr objs', t1)" and "y \<in> set objs'"
  shows "\<exists>ob\<in>set objs. \<forall>a. a \<noteq> pk \<longrightarrow> y a = ob a"
proof -
  obtain u ta where "insert_without_pk pk objs ta = (objs', t1)"
    using assms(1) by (auto simp: bulk_create_def split: prod.splits sum.splits)
  from insert_without_pk_origin [OF this assms(2)] show ?thesis .
qed

text \<open>What a successful run of the transaction body establishes.\<close>

lemma bulk_sync_body_post:
  fixes m :: model_meta
  defines "pk \<equiv> pk_attname m"
  assumes ok: "bulk_sync_body m objs ks filters fl t = (Inr (st, objs'), t3)"
    and wf: "wf_table (pk_attname m) t"
    and wfm: "wf_meta m"
    and kd: "distinct (map (get_key ks) (subset_qs filters t))"
  shows "\<forall>r\<in>set t3. in_scope filters r \<longrightarrow>
           (\<exists>x\<in>set objs'. x pk = r pk \<and> get_key ks x = get_key ks r
               \<and> (\<forall>a\<in>set (field_attnames m fl). r a = x a))"
    and "\<forall>x\<in>set objs'. \<exists>r\<in>set t3. r pk = x pk \<and> get_key ks r = get_key ks x
               \<and> (r \<in> set t \<longrightarrow> in_scope filters r)"
    and "\<forall>r\<in>set t. in_scope filters r \<longrightarrow> get_key ks r \<in> get_key ks ` set objs \<longrightarrow>
           (\<exists>r'\<in>set t3. r' pk = r pk \<and> (\<forall>a. a \<notin> set (field_attnames m fl) \<longrightarrow> r' a = r a))"
    and "\<forall>r\<in>set t. \<not> in_scope filters r \<longrightarrow> r \<in> set t3"
    and "wf_table pk t3"
    and "\<forall>r\<in>set t3. r \<in> set t \<or> r \<in> set objs'
           \<or> (\<exists>e\<in>set t. \<exists>y\<in>set objs'. in_scope filters e \<and> y pk = e pk
                  \<and> r = overwrite (field_attnames m fl) y e)"
    and "\<forall>y\<in>set objs'. \<exists>ob\<in>set objs. \<forall>a. a \<noteq> pk \<longrightarrow> y a = ob a"
proof -
  define atts where "atts = field_attnames m fl"
  define q where "q = in_scope filters"
  define d0 where "d0 = dict_of ks (subset_qs filters t)"
  obtain tagged d' new' t1 where
    c0: "classify (pk_attname m) ks objs (dict_of ks (subset_qs filters t)) = (tagged, d')"
    and bc0: "bulk_create (pk_attname m) (map snd (filter fst tagged)) t = (Inr new', t1)"
    and bu: "fst (bulk_update m (map snd (filter (\<lambda>x. \<not> fst x) tagged)) fl t1) = Inr ()"
    and t30: "t3 = filter (\<lambda>r. \<not> (in_scope filters r
            \<and> r (pk_attname m) \<in> set (map (\<lambda>kv. snd kv (pk_attname m)) d')))
          (map (update_row (pk_attname m) (field_attnames m fl)
                  (map snd (filter (\<lambda>x. \<not> fst x) tagged))) t1)"
    and o': "objs' = reassemble tagged new'"
    by (rule bulk_sync_body_InrE [OF ok])
  have c: "classify pk ks objs d0 = (tagged, d')"
    using c0 by (simp only: pk_def d0_def)
  have bc: "bulk_create pk (map snd (filter fst tagged)) t = (Inr new', t1)"
    using bc0 by (simp only: pk_def)
  have t3: "t3 = filter (\<lambda>r. \<not> (q r \<and> r pk \<in> set (map (\<lambda>kv. snd kv pk) d')))
          (map (update_row pk atts (map snd (filter (\<lambda>x. \<not> fst x) tagged))) t1)"
    using t30 by (simp only: pk_def atts_def q_def)
  define upd where "upd = map snd (filter (\<lambda>x. \<not> fst x) tagged)"
  define t2 where "t2 = map (update_row pk atts upd) t1"
  have t3': "t3 = filter (\<lambda>r. \<not> (q r \<and> r pk \<in> set (map (\<lambda>kv. snd kv pk) d'))) t2"
    using t3 by (simp add: t2_def upd_def)
  have pk_atts: "pk \<notin> set atts"
    using bulk_update_pk_untouched [OF bu wfm] by (simp add: pk_def atts_def)
  have wf': "wf_table pk t" using wf by (simp add: pk_def)
  from bulk_create_ok [OF bc wf'] obtain added where
    t1: "t1 = t @ added" and added: "set added = set new'"
    and wf1: "wf_table pk t1" and len: "length new' = length (map snd (filter fst tagged))"
    by blast
  have objs'_set: "set objs' = set new' \<union> set upd"
    using reassemble_set [of new' tagged] len o' by (simp add: upd_def)
  have sub: "\<And>r. r \<in> set (subset_qs filters t) \<longleftrightarrow> r \<in> set t \<and> q r"
    by (simp add: subset_qs_def q_def)
  have d0_sound: "\<And>k e. map_of d0 k = Some e \<Longrightarrow> e \<in> set t \<and> q e \<and> get_key ks e = k"
    using dict_of_sound [of ks "subset_qs filters t"] sub by (auto simp: d0_def)
  have d0_complete: "\<And>r. r \<in> set t \<Longrightarrow> q r \<Longrightarrow> map_of d0 (get_key ks r) = Some r"
    using dict_of_complete [OF kd] sub by (simp add: d0_def)
  have d'_dist: "distinct (map fst d')"
    using classify_rest_distinct [OF c] dict_of_distinct [of ks "subset_qs filters t"]
    by (simp add: d0_def)
  have upd_row: "\<exists>e\<in>set t. q e \<and> x pk = e pk \<and> get_key ks x = get_key ks e
                    \<and> get_key ks e \<in> get_key ks ` set objs"
    if "x \<in> set upd" for x
  proof -
    from that have "(False, x) \<in> set tagged" by (auto simp: upd_def)
    from classify_upd [OF c this] obtain ob e where
      ob: "ob \<in> set objs" and e: "map_of d0 (get_key ks ob) = Some e" and x: "x = ob(pk := e pk)"
      by blast
    from d0_sound [OF e] have e': "e \<in> set t" "q e" "get_key ks e = get_key ks ob" by simp_all
    have "get_key ks x = get_key ks e"
      using e'(3) x by (auto simp: get_key_eq_iff)
    moreover have "x pk = e pk" using x by simp
    moreover have "get_key ks e \<in> get_key ks ` set objs" using e'(3) ob by (metis imageI)
    ultimately show ?thesis using e'(1,2) by blast
  qed
  have stale_row: "\<exists>e\<in>set t. q e \<and> e pk = p \<and> get_key ks e \<notin> get_key ks ` set objs"
    if "p \<in> set (map (\<lambda>kv. snd kv pk) d')" for p
  proof -
    from that obtain k e where ke: "(k, e) \<in> set d'" and p: "e pk = p" by auto
    from ke d'_dist have m': "map_of d' k = Some e" by simp
    from classify_rest [OF c, of k] m' have k: "k \<notin> get_key ks ` set objs" and m0: "map_of d0 k = Some e"
      by (auto split: if_splits)
    from d0_sound [OF m0] k p show ?thesis by auto
  qed
  have not_stale: "e pk \<notin> set (map (\<lambda>kv. snd kv pk) d')"
    if "e \<in> set t" and "get_key ks e \<in> get_key ks ` set objs" for e
  proof
    assume "e pk \<in> set (map (\<lambda>kv. snd kv pk) d')"
    from stale_row [OF this] obtain e2 where
      e2: "e2 \<in> set t" "e2 pk = e pk" "get_key ks e2 \<notin> get_key ks ` set objs" by blast
    from wf_table_same_pk [OF wf' e2(1) that(1) e2(2)] have "e2 = e" .
    with e2(3) that(2) show False by simp
  qed
  have new_fresh: "x pk \<noteq> r pk" if "x \<in> set new'" and "r \<in> set t" for x r
  proof -
    have "distinct (map (\<lambda>r. r pk) (t @ added))" using wf1 t1 by (simp add: wf_table_iff)
    then have "set (map (\<lambda>r. r pk) t) \<inter> set (map (\<lambda>r. r pk) added) = {}" by simp
    moreover have "x pk \<in> set (map (\<lambda>r. r pk) added)" using that(1) added by auto
    moreover have "r pk \<in> set (map (\<lambda>r. r pk) t)" using that(2) by auto
    ultimately show ?thesis by auto
  qed
  have new_kept: "update_row pk atts upd x = x" if "x \<in> set new'" for x
  proof (rule update_row_miss, rule ballI)
    fix y assume "y \<in> set upd"
    from upd_row [OF this] obtain e where "e \<in> set t" "y pk = e pk" by blast
    with new_fresh [OF that, of e] show "y pk \<noteq> x pk" by simp
  qed
  have in_t1: "set t1 = set t \<union> set new'" using t1 added by simp
  have upd_key: "get_key ks (update_row pk atts upd r) = get_key ks r" if "r \<in> set t" for r
  proof (cases "\<exists>x\<in>set upd. x pk = r pk")
    case False
    then show ?thesis using update_row_miss [of upd pk r atts] by simp
  next
    case True
    then obtain x where x: "x \<in> set upd" "x pk = r pk" by blast
    from update_row_hit [of x upd pk r atts] x obtain y where
      y: "y \<in> set upd" "y pk = r pk" "update_row pk atts upd r = overwrite atts y r" by blast
    from upd_row [OF y(1)] obtain e where
      e: "e \<in> set t" "y pk = e pk" "get_key ks y = get_key ks e" by blast
    have "e = r" using wf_table_same_pk [OF wf' e(1) that] e(2) y(2) by simp
    then have "\<forall>k\<in>set ks. y k = r k" using e(3) by (simp add: get_key_eq_iff)
    then show ?thesis using y(3) by (simp add: get_key_eq_iff overwrite_def)
  qed
  show "\<forall>r\<in>set t3. in_scope filters r \<longrightarrow>
           (\<exists>x\<in>set objs'. x pk = r pk \<and> get_key ks x = get_key ks r
               \<and> (\<forall>a\<in>set (field_attnames m fl). r a = x a))"
  proof (intro ballI impI)
    fix r assume r3: "r \<in> set t3" and "in_scope filters r"
    then have qr: "q r" by (simp add: q_def)
    from r3 qr have r2: "r \<in> set t2" and ns: "r pk \<notin> set (map (\<lambda>kv. snd kv pk) d')"
      by (auto simp: t3')
    from r2 obtain r1 where r1: "r1 \<in> set t1" and r: "r = update_row pk atts upd r1"
      by (auto simp: t2_def)
    have "\<exists>x\<in>set objs'. x pk = r pk \<and> get_key ks x = get_key ks r \<and> (\<forall>a\<in>set atts. r a = x a)"
    proof (cases "r1 \<in> set new'")
      case True
      then have "r = r1" using new_kept r by simp
      then show ?thesis using True objs'_set by auto
    next
      case False
      then have r1t: "r1 \<in> set t" using r1 in_t1 by simp
      show ?thesis
      proof (cases "\<exists>x\<in>set upd. x pk = r1 pk")
        case True
        then obtain x where x: "x \<in> set upd" "x pk = r1 pk" by blast
        from update_row_hit [of x upd pk r1 atts] x obtain y where
          y: "y \<in> set upd" "y pk = r1 pk" "update_row pk atts upd r1 = overwrite atts y r1" by blast
        from upd_row [OF y(1)] obtain e where
          e: "e \<in> set t" "y pk = e pk" "get_key ks y = get_key ks e" by blast
        have "e = r1" using wf_table_same_pk [OF wf' e(1) r1t] e(2) y(2) by simp
        then have "get_key ks y = get_key ks r1" using e(3) by simp
        moreover have "get_key ks r = get_key ks r1" using upd_key [OF r1t] r by simp
        moreover have "r pk = y pk" using r y(2) update_row_pk [OF pk_atts, of upd r1] by simp
        moreover have "\<forall>a\<in>set atts. r a = y a" using r y(3) by (simp add: overwrite_def)
        ultimately show ?thesis using y(1) objs'_set by auto
      next
        case False
        then have rr: "r = r1" using update_row_miss [of upd pk r1 atts] r by simp
        have m0: "map_of d0 (get_key ks r) = Some r" using d0_complete r1t qr rr by simp
        show ?thesis
        proof (cases "get_key ks r \<in> get_key ks ` set objs")
          case True
          then obtain ob where ob: "ob \<in> set objs" "get_key ks ob = get_key ks r" by auto
          from classify_matched [OF c ob(1), of r] m0 ob(2) obtain x where
            "(False, x) \<in> set tagged" "x pk = r pk" by auto
          then have "x \<in> set upd" by (force simp: upd_def)
          with \<open>x pk = r pk\<close> False rr show ?thesis by auto
        next
          case False
          with classify_rest [OF c, of "get_key ks r"] m0
          have "map_of d' (get_key ks r) = Some r" by simp
          then have "(get_key ks r, r) \<in> set d'" by (rule map_of_SomeD)
          then have "r pk \<in> set (map (\<lambda>kv. snd kv pk) d')" by force
          with ns show ?thesis by simp
        qed
      qed
    qed
    then show "\<exists>x\<in>set objs'. x pk = r pk \<and> get_key ks x = get_key ks r
               \<and> (\<forall>a\<in>set (field_attnames m fl). r a = x a)"
      by (simp add: atts_def)
  qed
  have matched_stays: "update_row pk atts upd e \<in> set t3"
    if "e \<in> set t" and "get_key ks e \<in> get_key ks ` set objs" for e
  proof -
    have "update_row pk atts upd e \<in> set t2" using that(1) in_t1 by (simp add: t2_def)
    moreover have "update_row pk atts upd e pk \<notin> set (map (\<lambda>kv. snd kv pk) d')"
      using not_stale [OF that] update_row_pk [OF pk_atts, of upd e] by simp
    ultimately show ?thesis by (simp add: t3')
  qed
  show "\<forall>x\<in>set objs'. \<exists>r\<in>set t3. r pk = x pk \<and> get_key ks r = get_key ks x
               \<and> (r \<in> set t \<longrightarrow> in_scope filters r)"
  proof
    fix x assume "x \<in> set objs'"
    then consider "x \<in> set new'" | "x \<in> set upd" using objs'_set by auto
    then show "\<exists>r\<in>set t3. r pk = x pk \<and> get_key ks r = get_key ks x
               \<and> (r \<in> set t \<longrightarrow> in_scope filters r)"
    proof cases
      case 1
      then have "x \<in> set t2" using new_kept [OF 1] in_t1 by (force simp: t2_def)
      moreover have "x pk \<notin> set (map (\<lambda>kv. snd kv pk) d')"
      proof
        assume "x pk \<in> set (map (\<lambda>kv. snd kv pk) d')"
        from stale_row [OF this] obtain e where "e \<in> set t" "e pk = x pk" by blast
        with new_fresh [OF 1, of e] show False by simp
      qed
      ultimately have "x \<in> set t3" by (simp add: t3')
      moreover have "x \<notin> set t" using new_fresh [OF 1, of x] by auto
      ultimately show ?thesis by auto
    next
      case 2
      from upd_row [OF 2] obtain e where
        e: "e \<in> set t" "q e" "x pk = e pk" "get_key ks x = get_key ks e"
           "get_key ks e \<in> get_key ks ` set objs" by blast
      define r where "r = update_row pk atts upd e"
      have r3: "r \<in> set t3" using matched_stays [OF e(1,5)] by (simp add: r_def)
      have rpk: "r pk = x pk" using update_row_pk [OF pk_atts, of upd e] e(3) by (simp add: r_def)
      have rk: "get_key ks r = get_key ks x" using upd_key [OF e(1)] e(4) by (simp add: r_def)
      have "in_scope filters r" if "r \<in> set t"
      proof -
        have "r = e" using wf_table_same_pk [OF wf' that e(1)] rpk e(3) by simp
        then show ?thesis using e(2) by (simp add: q_def)
      qed
      then show ?thesis using r3 rpk rk by blast
    qed
  qed
  show "\<forall>r\<in>set t. in_scope filters r \<longrightarrow> get_key ks r \<in> get_key ks ` set objs \<longrightarrow>
           (\<exists>r'\<in>set t3. r' pk = r pk \<and> (\<forall>a. a \<notin> set (field_attnames m fl) \<longrightarrow> r' a = r a))"
  proof (intro ballI impI)
    fix r assume r: "r \<in> set t" and k: "get_key ks r \<in> get_key ks ` set objs"
    have "update_row pk atts upd r \<in> set t3" using matched_stays [OF r k] .
    moreover have "update_row pk atts upd r pk = r pk" using update_row_pk [OF pk_atts] .
    moreover have "\<forall>a. a \<notin> set atts \<longrightarrow> update_row pk atts upd r a = r a"
      using update_row_other by simp
    ultimately show "\<exists>r'\<in>set t3. r' pk = r pk
        \<and> (\<forall>a. a \<notin> set (field_attnames m fl) \<longrightarrow> r' a = r a)"
      unfolding atts_def by blast
  qed
  show "\<forall>r\<in>set t. \<not> in_scope filters r \<longrightarrow> r \<in> set t3"
  proof (intro ballI impI)
    fix r assume r: "r \<in> set t" and nq: "\<not> in_scope filters r"
    have "update_row pk atts upd r = r"
    proof (rule update_row_miss, rule ballI)
      fix y assume "y \<in> set upd"
      from upd_row [OF this] obtain e where e: "e \<in> set t" "q e" "y pk = e pk" by blast
      show "y pk \<noteq> r pk"
      proof
        assume "y pk = r pk"
        then have "e = r" using wf_table_same_pk [OF wf' e(1) r] e(3) by simp
        with e(2) nq show False by (simp add: q_def)
      qed
    qed
    then have "r \<in> set t2" using r in_t1 by (force simp: t2_def)
    then show "r \<in> set t3" using nq by (simp add: t3' q_def)
  qed
  have pks2: "map (\<lambda>r. r pk) t2 = map (\<lambda>r. r pk) t1"
    using update_row_pk [OF pk_atts, of upd] by (simp add: t2_def)
  show "wf_table pk t3"
  proof -
    have "distinct (map (\<lambda>r. r pk) t2)" using pks2 wf1 by (simp add: wf_table_iff)
    then have "distinct (map (\<lambda>r. r pk) t3)" unfolding t3' by (rule distinct_map_filter)
    moreover have "\<forall>r\<in>set t3. r pk \<noteq> VNone"
    proof
      fix r assume "r \<in> set t3"
      then have "r \<in> set t2" by (simp add: t3')
      then have "r pk \<in> set (map (\<lambda>r. r pk) t1)" using pks2 by (metis image_eqI set_map)
      then show "r pk \<noteq> VNone" using wf1 by (auto simp: wf_table_iff)
    qed
    ultimately show ?thesis by (simp add: wf_table_iff)
  qed
  show "\<forall>r\<in>set t3. r \<in> set t \<or> r \<in> set objs'
           \<or> (\<exists>e\<in>set t. \<exists>y\<in>set objs'. in_scope filters e \<and> y pk = e pk
                  \<and> r = overwrite (field_attnames m fl) y e)"
  proof
    fix r assume "r \<in> set t3"
    then have "r \<in> set t2" by (simp add: t3')
    then obtain r1 where r1: "r1 \<in> set t1" and r: "r = update_row pk atts upd r1"
      by (auto simp: t2_def)
    show "r \<in> set t \<or> r \<in> set objs'
           \<or> (\<exists>e\<in>set t. \<exists>y\<in>set objs'. in_scope filters e \<and> y pk = e pk
                  \<and> r = overwrite (field_attnames m fl) y e)"
    proof (cases "r1 \<in> set new'")
      case True
      then have "r = r1" using new_kept r by simp
      then show ?thesis using True objs'_set by simp
    next
      case False
      then have r1t: "r1 \<in> set t" using r1 in_t1 by simp
      show ?thesis
      proof (cases "\<exists>x\<in>set upd. x pk = r1 pk")
        case True
        then obtain x where x: "x \<in> set upd" "x pk = r1 pk" by blast
        from update_row_hit [of x upd pk r1 atts] x obtain y where
          y: "y \<in> set upd" "y pk = r1 pk" "update_row pk atts upd r1 = overwrite atts y r1" by blast
        from upd_row [OF y(1)] obtain e where
          e: "e \<in> set t" "q e" "y pk = e pk" by blast
        have "e = r1" using wf_table_same_pk [OF wf' e(1) r1t] e(3) y(2) by simp
        then have "in_scope filters r1" using e(2) by (simp add: q_def)
        moreover have "y \<in> set objs'" using y(1) objs'_set by simp
        moreover have "r = overwrite (field_attnames m fl) y r1" using r y(3) by (simp add: atts_def)
        ultimately show ?thesis using r1t y(2) by blast
      next
        case False
        then have "r = r1" using update_row_miss [of upd pk r1 atts] r by simp
        then show ?thesis using r1t by simp
      qed
    qed
  qed
  show "\<forall>y\<in>set objs'. \<exists>ob\<in>set objs. \<forall>a. a \<noteq> pk \<longrightarrow> y a = ob a"
  proof
    fix y assume "y \<in> set objs'"
    then consider "y \<in> set new'" | "y \<in> set upd" using objs'_set by auto
    then show "\<exists>ob\<in>set objs. \<forall>a. a \<noteq> pk \<longrightarrow> y a = ob a"
    proof cases
      case 1
      from bulk_create_origin [OF bc 1] obtain ob where
        ob: "ob \<in> set (map snd (filter fst tagged))" "\<forall>a. a \<noteq> pk \<longrightarrow> y a = ob a" by blast
      from ob(1) have "(True, ob) \<in> set tagged" by auto
      from classify_new [OF c this] ob(2) show ?thesis by blast
    next
      case 2
      then have "(False, y) \<in> set tagged" by (auto simp: upd_def)
      from classify_upd [OF c this] obtain ob e where
        "ob \<in> set objs" "y = ob(pk := e pk)" by blast
      then show ?thesis by auto
    qed
  qed
qed

section \<open>Failures leave the store as it was\<close>

lemma call_tables: "tables (snd (call run repo a kw w)) = tables w"
  by (simp add: call_def tables_def Let_def)

lemma restic_ls_tables: "tables (snd (restic_ls run loads repo sid args w)) = tables w"
  using call_tables [of run repo "''ls'' # sid # args" "[''--json'']" w]
  by (auto simp: restic_ls_def split: prod.splits sum.splits)

lemma restic_snapshots_tables: "tables (snd (restic_snapshots run loads repo w)) = tables w"
  using call_tables [of run repo "[''snapshots'']" "[''--json'']" w]
  by (auto simp: restic_snapshots_def split: prod.splits sum.splits option.splits)


lemma bulk_sync_Nil: "bulk_sync m [] key_fields filters fieldlist exclude t = (Inl IndexError, t)"
  by (simp add: bulk_sync_def)

lemma bulk_sync_failure_restores:
  "fst (bulk_sync m objs key_fields filters fieldlist exclude t) = Inl e
   \<Longrightarrow> snd (bulk_sync m objs key_fields filters fieldlist exclude t) = t"
  by (auto simp: bulk_sync_def atomic_def split: prod.splits sum.splits if_splits)

lemma get_children_empty:
  assumes "get_by_pk (snapshots w) (self ''snapshot_id'') = Inr snapshot"
    and "get_by_pk (repositories w) (snapshot ''repository_id'') = Inr repo"
    and "\<not> (truthy (self ''fetched_on'') \<and> \<not> force_sync)"
    and "self ''snapshot_id'' = VStr sid" and "self ''path'' = VStr path"
    and "fst (restic_ls run loads repo sid [path] w) = Inr []"
  shows "fst (get_children run loads self force_sync w) = Inl IndexError
     \<and> fst (snd (get_children run loads self force_sync w)) = self
     \<and> tables (snd (snd (get_children run loads self force_sync w))) = tables w"
proof -
  obtain w1 where r: "restic_ls run loads repo sid [path] w = (Inr [], w1)"
    using assms(6) by (cases "restic_ls run loads repo sid [path] w") auto
  have t: "tables w1 = tables w" using restic_ls_tables [of run loads repo sid "[path]" w] r by simp
  have "get_children run loads self force_sync w = (Inl IndexError, self, w1\<lparr>snapshot_paths := snapshot_paths w1\<rparr>)"
    using assms(1-5) r by (simp add: get_children_def bulk_sync_Nil)
  then show ?thesis using t by (simp add: tables_def)
qed

lemma sync_snapshots_empty:
  assumes "fst (restic_snapshots run loads self w) = Inr v" and "iterate v = Inr []"
  shows "fst (sync_snapshots run loads self w) = Inl IndexError
     \<and> fst (snd (sync_snapshots run loads self w)) = self
     \<and> tables (snd (snd (sync_snapshots run loads self w))) = tables w"
proof -
  obtain w1 where r: "restic_snapshots run loads self w = (Inr v, w1)"
    using assms(1) by (cases "restic_snapshots run loads self w") auto
  have t: "tables w1 = tables w" using restic_snapshots_tables [of run loads self w] r by simp
  have "sync_snapshots run loads self w = (Inl IndexError, self, w1\<lparr>snapshots := snapshots w1\<rparr>)"
    using assms(2) r by (simp add: sync_snapshots_def bulk_sync_Nil)
  then show ?thesis using t by (simp add: tables_def)
qed

text \<open>
  Claim C10. With an empty list of desired records \<open>bulk_sync\<close> raises \<open>IndexError\<close> at
  \<open>objs[0]\<close>, before the transaction and before any query, and the table is as it was.
  Hence a listing of zero directory entries makes \<open>get_children\<close> fail, and a listing of zero
  snapshots makes \<open>sync_snapshots\<close> fail: nothing is deleted, the three tables are unchanged
  and the instance is not stamped as fetched.
\<close>

theorem empty_listing_raises:
  "bulk_sync m [] key_fields filters fieldlist exclude t = (Inl IndexError, t)
   \<and> (get_by_pk (snapshots w) (self ''snapshot_id'') = Inr snapshot
        \<longrightarrow> get_by_pk (repositories w) (snapshot ''repository_id'') = Inr repo
        \<longrightarrow> \<not> (truthy (self ''fetched_on'') \<and> \<not> force_sync)
        \<longrightarrow> self ''snapshot_id'' = VStr sid \<longrightarrow> self ''path'' = VStr path
        \<longrightarrow> fst (restic_ls run loads repo sid [path] w) = Inr []
        \<longrightarrow> fst (get_children run loads self force_sync w) = Inl IndexError
            \<and> fst (snd (get_children run loads self force_sync w)) = self
            \<and> tables (snd (snd (get_children run loads self force_sync w))) = tables w)
   \<and> (fst (restic_snapshots run loads repository w) = Inr v \<longrightarrow> iterate v = Inr []
        \<longrightarrow> fst (sync_snapshots run loads repository w) = Inl IndexError
            \<and> fst (snd (sync_snapshots run loads repository w)) = repository
            \<and> tables (snd (snd (sync_snapshots run loads repository w))) = tables w)"
  using get_children_empty [of w self snapshot repo force_sync sid path run loads]
    sync_snapshots_empty [of run loads repository w v]
    bulk_sync_Nil [of m key_fields filters fieldlist exclude t]
  by blast

lemma example_lookup_snapshot:
  "get_by_pk (snapshots example_world) (example_path i p f ''snapshot_id'')
     = Inr (example_snapshot ''a'' ''old'' (VInt 500))"
  by (simp add: get_by_pk_def example_world_def example_path_def example_snapshot_def)

lemma example_lookup_repo:
  "get_by_pk (repositories example_world) (example_snapshot s h z ''repository_id'') = Inr example_repo"
  by (simp add: get_by_pk_def example_world_def example_repo_def example_snapshot_def)

lemma example_ls_empty:
  "fst (restic_ls (example_tool [] 0) example_loads example_repo ''a'' [''/''] example_world) = Inr []"
  by (simp add: restic_ls_def call_def example_tool_def Let_def strip_truthy_def)

lemma example_snapshots_empty:
  "fst (restic_snapshots (example_tool ''E'' 0) example_loads example_repo example_world)
     = Inr (VList [])"
  by (simp add: restic_snapshots_def call_def example_tool_def example_loads_def Let_def)

theorem empty_listing_raises_witness:
  "fst (get_children (example_tool [] 0) example_loads (example_path 1 ''/'' VNone) False
          example_world) = Inl IndexError
   \<and> tables (snd (snd (get_children (example_tool [] 0) example_loads
          (example_path 1 ''/'' VNone) False example_world))) = tables example_world
   \<and> fst (sync_snapshots (example_tool ''E'' 0) example_loads example_repo example_world)
       = Inl IndexError
   \<and> tables (snd (snd (sync_snapshots (example_tool ''E'' 0) example_loads example_repo
          example_world))) = tables example_world"
proof -
  have h3: "\<not> (truthy (example_path 1 ''/'' VNone ''fetched_on'') \<and> \<not> False)"
    and h4: "example_path 1 ''/'' VNone ''snapshot_id'' = VStr ''a''"
    and h5: "example_path 1 ''/'' VNone ''path'' = VStr ''/''"
    by (simp_all add: example_path_def)
  have h8: "iterate (VList []) = Inr []" by simp
  show ?thesis
    using empty_listing_raises [where w = example_world and self = "example_path 1 ''/'' VNone"
        and snapshot = "example_snapshot ''a'' ''old'' (VInt 500)" and repo = example_repo
        and force_sync = False and sid = "''a''" and path = "''/''"
        and run = "example_tool [] 0" and loads = example_loads]
      empty_listing_raises [where w = example_world and run = "example_tool ''E'' 0"
        and loads = example_loads and repository = example_repo and v = "VList []"]
      example_lookup_snapshot [of 1 "''/''" VNone] example_lookup_repo [of "''a''" "''old''" "VInt 500"]
      h3 h4 h5 example_ls_empty example_snapshots_empty h8
    by simp
qed

text \<open>
  Claim C4. A call of \<open>bulk_sync\<close> is all-or-nothing: when it fails, at whichever step
  (the check of \<open>objs[0]\<close>, the create batch, the update batch or the assertion), the table
  is exactly as before the call; when it succeeds, the reported counts satisfy
  updated + created = number of desired records.
\<close>

theorem bulk_sync_all_or_nothing:
  "(case bulk_sync m objs key_fields filters fieldlist exclude t of
      (Inl e, t') \<Rightarrow> t' = t
    | (Inr res, t') \<Rightarrow> updated (fst res) + created (fst res) = int (length objs))"
  by (auto simp: bulk_sync_def atomic_def bulk_sync_body_def Let_def
           split: prod.splits sum.splits if_splits)

section \<open>The two models of the repository, evaluated\<close>

lemma Snapshot_pk: "pk_attname Snapshot_meta = ''id''"
  by (simp add: pk_attname_def Snapshot_meta_def plain_def)

lemma SnapshotPath_pk: "pk_attname SnapshotPath_meta = ''id''"
  by (simp add: pk_attname_def SnapshotPath_meta_def plain_def)

lemma Snapshot_fields:
  "resolve_fields Snapshot_meta None (Some [''total_size'', ''total_file_count''])
     = [''repository'', ''hostname'', ''username'', ''paths'', ''tags'', ''time'', ''parent'',
        ''tree'', ''fetched_on'']"
  by (simp add: resolve_fields_def default_fields_def Snapshot_meta_def plain_def)

lemma SnapshotPath_fields:
  "resolve_fields SnapshotPath_meta None None
     = [''snapshot'', ''name'', ''type'', ''path'', ''uid'', ''gid'', ''size'', ''mode'',
        ''mtime'', ''atime'', ''ctime'', ''fetched_on'']"
  by (simp add: resolve_fields_def default_fields_def SnapshotPath_meta_def plain_def)

lemma Snapshot_attnames:
  "field_attnames Snapshot_meta
     [''repository'', ''hostname'', ''username'', ''paths'', ''tags'', ''time'', ''parent'',
      ''tree'', ''fetched_on'']
   = [''repository_id'', ''hostname'', ''username'', ''paths'', ''tags'', ''time'', ''parent'',
      ''tree'', ''fetched_on'']"
  by (simp add: field_attnames_def get_field_def Snapshot_meta_def plain_def)

lemma Snapshot_fields_exist:
  "\<not> list_ex (\<lambda>n. get_field Snapshot_meta n = None)
     [''repository'', ''hostname'', ''username'', ''paths'', ''tags'', ''time'', ''parent'',
      ''tree'', ''fetched_on'']"
  by (simp add: get_field_def Snapshot_meta_def plain_def)

lemma Snapshot_fields_not_pk:
  "\<not> list_ex (\<lambda>n. case get_field Snapshot_meta n of Some f \<Rightarrow> primary_key f | None \<Rightarrow> False)
     [''repository'', ''hostname'', ''username'', ''paths'', ''tags'', ''time'', ''parent'',
      ''tree'', ''fetched_on'']"
  by (simp add: get_field_def Snapshot_meta_def plain_def)

lemma Snapshot_bulk_update:
  "bulk_update Snapshot_meta objs
     [''repository'', ''hostname'', ''username'', ''paths'', ''tags'', ''time'', ''parent'',
      ''tree'', ''fetched_on''] t
   = (if list_ex (\<lambda>ob. ob ''id'' = VNone) objs then (Inl ValueError, t)
      else (Inr (), map (update_row ''id''
         [''repository_id'', ''hostname'', ''username'', ''paths'', ''tags'', ''time'', ''parent'',
          ''tree'', ''fetched_on''] objs) t))"
  by (simp add: bulk_update_def pk_attname_def field_attnames_def get_field_def
        Snapshot_meta_def plain_def)

lemma SnapshotPath_attnames:
  "field_attnames SnapshotPath_meta
     [''snapshot'', ''name'', ''type'', ''path'', ''uid'', ''gid'', ''size'', ''mode'',
      ''mtime'', ''atime'', ''ctime'', ''fetched_on'']
   = [''snapshot_id'', ''name'', ''type'', ''path'', ''uid'', ''gid'', ''size'', ''mode'',
      ''mtime'', ''atime'', ''ctime'', ''fetched_on'']"
  by (simp add: field_attnames_def get_field_def SnapshotPath_meta_def plain_def)

lemma SnapshotPath_fields_exist:
  "\<not> list_ex (\<lambda>n. get_field SnapshotPath_meta n = None)
     [''snapshot'', ''name'', ''type'', ''path'', ''uid'', ''gid'', ''size'', ''mode'',
      ''mtime'', ''atime'', ''ctime'', ''fetched_on'']"
  by (simp add: get_field_def SnapshotPath_meta_def plain_def)

lemma SnapshotPath_fields_not_pk:
  "\<not> list_ex (\<lambda>n. case get_field SnapshotPath_meta n of Some f \<Rightarrow> primary_key f | None \<Rightarrow> False)
     [''snapshot'', ''name'', ''type'', ''path'', ''uid'', ''gid'', ''size'', ''mode'',
      ''mtime'', ''atime'', ''ctime'', ''fetched_on'']"
  by (simp add: get_field_def SnapshotPath_meta_def plain_def)

lemma SnapshotPath_bulk_update:
  "bulk_update SnapshotPath_meta objs
     [''snapshot'', ''name'', ''type'', ''path'', ''uid'', ''gid'', ''size'', ''mode'',
      ''mtime'', ''atime'', ''ctime'', ''fetched_on''] t
   = (if list_ex (\<lambda>ob. ob ''id'' = VNone) objs then (Inl ValueError, t)
      else (Inr (), map (update_row ''id''
         [''snapshot_id'', ''name'', ''type'', ''path'', ''uid'', ''gid'', ''size'', ''mode'',
          ''mtime'', ''atime'', ''ctime'', ''fetched_on''] objs) t))"
  by (simp add: bulk_update_def pk_attname_def field_attnames_def get_field_def
        SnapshotPath_meta_def plain_def)

lemmas eval_bulk_sync =
  bulk_sync_def atomic_def bulk_sync_body_def Snapshot_pk SnapshotPath_pk Snapshot_fields
  SnapshotPath_fields Snapshot_bulk_update SnapshotPath_bulk_update dict_of_def subset_qs_def
  in_scope_def get_key_def bulk_create_def update_row_def overwrite_def next_pk_def Let_def

lemma scenario_reconcile:
  "(case bulk_sync Snapshot_meta
           [example_snapshot ''a'' ''new'' VNone, example_snapshot ''c'' ''new'' VNone] [''id'']
           (Some (\<lambda>r. r ''repository_id'' = example_repo ''id'')) None
           (Some [''total_size'', ''total_file_count'']) (snapshots example_world) of
      (Inl e, t') \<Rightarrow> False
    | (Inr res, t') \<Rightarrow>
        created (fst res) = 1 \<and> updated (fst res) = 1 \<and> deleted (fst res) = 1
        \<and> map (\<lambda>r. (r ''id'', r ''hostname'', r ''total_size''))
              (filter (\<lambda>r. r ''repository_id'' = example_repo ''id'') t')
            = [(VStr ''a'', VStr ''new'', VInt 500), (VStr ''c'', VStr ''new'', VNone)])"
  by (simp add: eval_bulk_sync example_world_def example_snapshot_def example_repo_def)






section \<open>Failures of the backup tool\<close>
















section \<open>Snapshot.sync\<close>

lemma save_calls_irrelevant: "calls (w\<lparr>snapshot_paths := t\<rparr>) = calls w"
  by simp













section \<open>What a successful bulk_sync leaves in the scope\<close>

lemma bulk_sync_InrD:
  assumes "bulk_sync m objs ks filters fieldlist exclude t = (Inr res, t')"
  shows "objs \<noteq> []"
    and "bulk_sync_body m objs ks filters (resolve_fields m fieldlist exclude) t = (Inr res, t')"
  using assms
  by (auto simp: bulk_sync_def atomic_def split: if_splits prod.splits sum.splits)






lemma Snapshot_wf_meta: "wf_meta Snapshot_meta"
  by (simp add: wf_meta_def Snapshot_meta_def plain_def)

lemma SnapshotPath_wf_meta: "wf_meta SnapshotPath_meta"
  by (simp add: wf_meta_def SnapshotPath_meta_def plain_def)

lemma scenario_rows_in_scope:
  "list_all (\<lambda>r. r ''repository_id'' = example_repo ''id'')
     (snd (bulk_sync Snapshot_meta
           [example_snapshot ''a'' ''new'' VNone, example_snapshot ''c'' ''new'' VNone] [''id'']
           (Some (\<lambda>r. r ''repository_id'' = example_repo ''id'')) None
           (Some [''total_size'', ''total_file_count'']) (snapshots example_world)))"
  by (simp add: eval_bulk_sync example_world_def example_snapshot_def example_repo_def)





section \<open>Reconciling twice\<close>

lemma classify_all_hit:
  "distinct (map (get_key ks) objs)
   \<Longrightarrow> \<forall>x\<in>set objs. \<exists>e. map_of d (get_key ks x) = Some e \<and> e pk = x pk
   \<Longrightarrow> dom (map_of d) \<subseteq> get_key ks ` set objs
   \<Longrightarrow> classify pk ks objs d = (map (Pair False) objs, [])"
proof (induction objs arbitrary: d)
  case Nil
  then have "map_of d = Map.empty" by auto
  then have "d = []" by (simp only: map_of_eq_empty_iff)
  then show ?case by simp
next
  case (Cons a objs)
  from Cons.prems(2) obtain e where e: "map_of d (get_key ks a) = Some e" "e pk = a pk" by auto
  have na: "get_key ks a \<notin> get_key ks ` set objs" using Cons.prems(1) by simp
  have h2: "\<forall>x\<in>set objs. \<exists>e. map_of (AList.delete (get_key ks a) d) (get_key ks x) = Some e
                \<and> e pk = x pk"
  proof
    fix x assume x: "x \<in> set objs"
    then have "get_key ks x \<noteq> get_key ks a" using na by (metis imageI)
    moreover from Cons.prems(2) x obtain e' where
      "map_of d (get_key ks x) = Some e'" "e' pk = x pk" by auto
    ultimately show "\<exists>e. map_of (AList.delete (get_key ks a) d) (get_key ks x) = Some e
                \<and> e pk = x pk"
      by (simp add: delete_conv')
  qed
  have h3: "dom (map_of (AList.delete (get_key ks a) d)) \<subseteq> get_key ks ` set objs"
  proof
    fix k assume "k \<in> dom (map_of (AList.delete (get_key ks a) d))"
    then have "k \<noteq> get_key ks a" and "k \<in> dom (map_of d)"
      by (auto simp: delete_conv' split: if_splits)
    then show "k \<in> get_key ks ` set objs" using Cons.prems(3) by auto
  qed
  have d1: "distinct (map (get_key ks) objs)" using Cons.prems(1) by simp
  have "a(pk := e pk) = a" using e(2) by simp
  then show ?case using e(1) Cons.IH [OF d1 h2 h3] by simp
qed

lemma reassemble_all_updated: "reassemble (map (Pair False) objs) [] = objs"
  by (induction objs) simp_all

lemma bulk_sync_body_length:
  assumes "bulk_sync_body m objs ks filters fl t = (Inr (st, objs'), t')"
  shows "length objs' = length objs"
proof -
  from bulk_sync_body_InrE [OF assms] obtain tagged d' new' where
    c: "classify (pk_attname m) ks objs (dict_of ks (subset_qs filters t)) = (tagged, d')"
    and o: "objs' = reassemble tagged new'" by metis
  show ?thesis using o classify_length [OF c] by (simp add: reassemble_length)
qed


lemma bulk_sync_body_again:
  assumes first: "bulk_sync_body m objs ks filters fl t = (Inr (st, objs'), t')"
    and wf: "wf_table (pk_attname m) t"
    and wfm: "wf_meta m"
    and kd: "distinct (map (get_key ks) (subset_qs filters t))"
    and scope: "\<forall>r\<in>set t'. r \<notin> set t \<longrightarrow> in_scope filters r"
    and dk: "distinct (map (get_key ks) objs')"
  shows "bulk_sync_body m objs' ks filters fl t'
     = (Inr (\<lparr>created = 0, updated = int (length objs'), deleted = 0\<rparr>, objs'), t')"
proof -
  define pk where "pk = pk_attname m"
  define atts where "atts = field_attnames m fl"
  note post = bulk_sync_body_post [OF first wf wfm kd]
  have p_in: "\<forall>r\<in>set t'. in_scope filters r \<longrightarrow>
          (\<exists>x\<in>set objs'. x pk = r pk \<and> get_key ks x = get_key ks r
             \<and> (\<forall>a\<in>set atts. r a = x a))"
    using post(1) by (simp add: pk_def atts_def)
  have p_objs: "\<forall>x\<in>set objs'. \<exists>r\<in>set t'. r pk = x pk
      \<and> get_key ks r = get_key ks x \<and> (r \<in> set t \<longrightarrow> in_scope filters r)"
    using post(2) by (simp add: pk_def)
  have wf': "wf_table pk t'" using post(5) by (simp add: pk_def)
  have inj: "x = y" if "x \<in> set objs'" "y \<in> set objs'" "get_key ks x = get_key ks y" for x y
    using dk that by (auto simp: distinct_map inj_on_def)
  have row_of: "\<exists>r\<in>set t'. in_scope filters r \<and> r pk = x pk \<and> get_key ks r = get_key ks x"
    if "x \<in> set objs'" for x
  proof -
    from p_objs that obtain r where
      r: "r \<in> set t'" "r pk = x pk" "get_key ks r = get_key ks x"
         "r \<in> set t \<longrightarrow> in_scope filters r" by blast
    have "in_scope filters r" using r(1,4) scope by blast
    then show ?thesis using r by blast
  qed
  define S where "S = subset_qs filters t'"
  have S: "\<And>r. r \<in> set S \<longleftrightarrow> r \<in> set t' \<and> in_scope filters r"
    by (simp add: S_def subset_qs_def)
  have kd': "distinct (map (get_key ks) S)"
  proof -
    have "distinct t'" using wf' by (auto simp: wf_table_iff distinct_map)
    then have "distinct S" by (simp add: S_def subset_qs_def)
    moreover have "inj_on (get_key ks) (set S)"
    proof (rule inj_onI)
      fix r1 r2 assume r1: "r1 \<in> set S" and r2: "r2 \<in> set S"
        and k: "get_key ks r1 = get_key ks r2"
      from p_in r1 S obtain x1 where
        x1: "x1 \<in> set objs'" "x1 pk = r1 pk" "get_key ks x1 = get_key ks r1" by blast
      from p_in r2 S obtain x2 where
        x2: "x2 \<in> set objs'" "x2 pk = r2 pk" "get_key ks x2 = get_key ks r2" by blast
      have "x1 = x2" using inj [OF x1(1) x2(1)] x1(3) x2(3) k by simp
      then have "r1 pk = r2 pk" using x1(2) x2(2) by simp
      then show "r1 = r2" using wf_table_same_pk [OF wf'] r1 r2 S by blast
    qed
    ultimately show ?thesis by (simp add: distinct_map)
  qed
  have hit: "\<forall>x\<in>set objs'. \<exists>e. map_of (dict_of ks S) (get_key ks x) = Some e \<and> e pk = x pk"
  proof
    fix x assume "x \<in> set objs'"
    from row_of [OF this] obtain r where
      r: "r \<in> set t'" "in_scope filters r" "r pk = x pk" "get_key ks r = get_key ks x" by blast
    then have "r \<in> set S" using S by simp
    from dict_of_complete [OF kd' this] r(3,4)
    show "\<exists>e. map_of (dict_of ks S) (get_key ks x) = Some e \<and> e pk = x pk" by auto
  qed
  have dom: "dom (map_of (dict_of ks S)) \<subseteq> get_key ks ` set objs'"
  proof
    fix k assume "k \<in> dom (map_of (dict_of ks S))"
    then obtain r where r: "r \<in> set S" "k = get_key ks r" by (auto simp: dict_of_dom)
    from p_in r(1) S obtain x where "x \<in> set objs'" "get_key ks x = get_key ks r" by blast
    then show "k \<in> get_key ks ` set objs'" using r(2) by (metis imageI)
  qed
  have c: "classify pk ks objs' (dict_of ks S) = (map (Pair False) objs', [])"
    by (rule classify_all_hit [OF dk hit dom])
  have bc: "bulk_create pk [] t' = (Inr [], t')" by (simp add: bulk_create_def)
  have pk_None: "\<not> list_ex (\<lambda>ob. ob pk = VNone) objs'"
  proof
    assume "list_ex (\<lambda>ob. ob pk = VNone) objs'"
    then obtain x where x: "x \<in> set objs'" "x pk = VNone" by (auto simp: list_ex_iff)
    from row_of [OF x(1)] obtain r where "r \<in> set t'" "r pk = x pk" by blast
    then show False using wf' x(2) by (auto simp: wf_table_iff)
  qed
  have same: "update_row pk atts objs' r = r" if r: "r \<in> set t'" for r
  proof (cases "\<exists>x\<in>set objs'. x pk = r pk")
    case False
    then show ?thesis using update_row_miss [of objs' pk r atts] by simp
  next
    case True
    then obtain x where x: "x \<in> set objs'" "x pk = r pk" by blast
    from update_row_hit [of x objs' pk r atts] x obtain y where
      y: "y \<in> set objs'" "y pk = r pk" "update_row pk atts objs' r = overwrite atts y r" by blast
    from row_of [OF y(1)] obtain r2 where
      r2: "r2 \<in> set t'" "in_scope filters r2" "r2 pk = y pk" "get_key ks r2 = get_key ks y" by blast
    have "r2 = r" using wf_table_same_pk [OF wf' r2(1) r] r2(3) y(2) by simp
    then have rs: "in_scope filters r" and rk: "get_key ks r = get_key ks y" using r2 by simp_all
    from p_in r rs obtain z where
      z: "z \<in> set objs'" "get_key ks z = get_key ks r" "\<forall>a\<in>set atts. r a = z a" by blast
    have "z = y" using inj [OF z(1) y(1)] z(2) rk by simp
    then have "\<forall>a\<in>set atts. y a = r a" using z(3) by simp
    then have "overwrite atts y r = r" by (auto simp: overwrite_def)
    then show ?thesis using y(3) by simp
  qed
  obtain upd0 t1 where bu0: "fst (bulk_update m upd0 fl t1) = Inr ()"
    using bulk_sync_body_InrE [OF first] by metis
  have v: "fl \<noteq> []" "\<not> list_ex (\<lambda>n. get_field m n = None) fl"
    "\<not> list_ex (\<lambda>n. case get_field m n of Some f \<Rightarrow> primary_key f | None \<Rightarrow> False) fl"
    using bu0 by (auto simp: bulk_update_def split: if_splits)
  have "map (update_row pk atts objs') t' = t'"
    using same by (simp add: map_idI)
  then have bu: "bulk_update m objs' fl t' = (Inr (), t')"
    using v pk_None by (simp add: bulk_update_def pk_def atts_def)
  have m1: "map snd (filter fst (map (Pair False) objs')) = []"
    by (induction objs') simp_all
  have m2: "map snd (filter (\<lambda>x. \<not> fst x) (map (Pair False) objs')) = objs'"
    by (induction objs') simp_all
  have m3: "length (filter (\<lambda>x. \<not> fst x) (map (Pair False) objs')) = length objs'"
    by (induction objs') simp_all
  show ?thesis
    unfolding bulk_sync_body_def
    using c bc bu m1 m2 m3
    by (simp add: pk_def S_def reassemble_all_updated)
qed


text \<open>
  Claim C2, as the code has it. After a successful call of \<open>bulk_sync\<close> whose written rows
  lie in the scope, on a scope whose stored rows had pairwise distinct keys, with desired
  records of pairwise distinct keys: the second call with the same records (the instances
  as the first call left them) succeeds, reports created = 0 and deleted = 0, counts every
  desired record as updated (updated = the number of desired records, since \<open>bulk_sync\<close>
  never compares field values), returns the instances unchanged and leaves the table
  exactly as it was.
\<close>

theorem bulk_sync_twice:
  assumes first: "bulk_sync m objs ks filters fieldlist exclude t = (Inr (st, objs'), t')"
    and wf: "wf_table (pk_attname m) t"
    and wfm: "wf_meta m"
    and kd: "distinct (map (get_key ks) (subset_qs filters t))"
    and scope: "\<forall>r\<in>set t'. r \<notin> set t \<longrightarrow> in_scope filters r"
    and dk: "distinct (map (get_key ks) objs')"
  shows "bulk_sync m objs' ks filters fieldlist exclude t'
     = (Inr (\<lparr>created = 0, updated = int (length objs), deleted = 0\<rparr>, objs'), t')"
proof -
  note body = bulk_sync_InrD(2) [OF first]
  have len: "length objs' = length objs" by (rule bulk_sync_body_length [OF body])
  have "objs \<noteq> []" by (rule bulk_sync_InrD(1) [OF first])
  then have ne: "objs' \<noteq> []" using len by auto
  show ?thesis
    using bulk_sync_body_again [OF body wf wfm kd scope dk] ne len
    by (simp add: bulk_sync_def atomic_def)
qed

lemma scenario_returned_keys:
  "map (get_key [''id'']) (snd (projr (fst (bulk_sync Snapshot_meta
           [example_snapshot ''a'' ''new'' VNone, example_snapshot ''c'' ''new'' VNone] [''id'']
           (Some (\<lambda>r. r ''repository_id'' = example_repo ''id'')) None
           (Some [''total_size'', ''total_file_count'']) (snapshots example_world)))))
     = [[VStr ''a''], [VStr ''c'']]"
  by (simp add: eval_bulk_sync example_world_def example_snapshot_def example_repo_def)

theorem bulk_sync_twice_witness:
  "fst (bulk_sync Snapshot_meta
      (snd (projr (fst (bulk_sync Snapshot_meta
           [example_snapshot ''a'' ''new'' VNone, example_snapshot ''c'' ''new'' VNone] [''id'']
           (Some (\<lambda>r. r ''repository_id'' = example_repo ''id'')) None
           (Some [''total_size'', ''total_file_count'']) (snapshots example_world)))))
      [''id''] (Some (\<lambda>r. r ''repository_id'' = example_repo ''id'')) None
      (Some [''total_size'', ''total_file_count''])
      (snd (bulk_sync Snapshot_meta
           [example_snapshot ''a'' ''new'' VNone, example_snapshot ''c'' ''new'' VNone] [''id'']
           (Some (\<lambda>r. r ''repository_id'' = example_repo ''id'')) None
           (Some [''total_size'', ''total_file_count'']) (snapshots example_world))))
   = Inr (\<lparr>created = 0, updated = 2, deleted = 0\<rparr>,
      snd (projr (fst (bulk_sync Snapshot_meta
           [example_snapshot ''a'' ''new'' VNone, example_snapshot ''c'' ''new'' VNone] [''id'']
           (Some (\<lambda>r. r ''repository_id'' = example_repo ''id'')) None
           (Some [''total_size'', ''total_file_count'']) (snapshots example_world)))))"
proof -
  define D where "D = [example_snapshot ''a'' ''new'' VNone, example_snapshot ''c'' ''new'' VNone]"
  define q where "q = (\<lambda>r :: obj. r ''repository_id'' = example_repo ''id'')"
  define E where "E = snapshots example_world"
  define R where "R = bulk_sync Snapshot_meta D [''id''] (Some q) None
      (Some [''total_size'', ''total_file_count'']) E"
  obtain res t' where R: "R = (res, t')" by (cases R) auto
  have "case R of (Inl e, t') \<Rightarrow> False | (Inr res, t') \<Rightarrow> True"
    using scenario_reconcile unfolding R_def D_def q_def E_def
    by (auto split: prod.splits sum.splits)
  then obtain st objs' where ok: "R = (Inr (st, objs'), t')"
    using R by (cases res) auto
  have ok': "bulk_sync Snapshot_meta D [''id''] (Some q) None
      (Some [''total_size'', ''total_file_count'']) E = (Inr (st, objs'), t')"
    using ok by (simp add: R_def)
  have wf: "wf_table (pk_attname Snapshot_meta) E"
    by (simp add: Snapshot_pk wf_table_def E_def example_world_def example_snapshot_def)
  have kd: "distinct (map (get_key [''id'']) (subset_qs (Some q) E))"
    by (simp add: subset_qs_def in_scope_def q_def get_key_def E_def example_world_def
          example_snapshot_def example_repo_def)
  have "list_all q (snd R)"
    using scenario_rows_in_scope unfolding R_def D_def q_def E_def .
  then have sc: "\<forall>r\<in>set t'. r \<notin> set E \<longrightarrow> in_scope (Some q) r"
    using ok by (simp add: list_all_iff in_scope_def)
  have "map (get_key [''id'']) (snd (projr (fst R))) = [[VStr ''a''], [VStr ''c'']]"
    using scenario_returned_keys unfolding R_def D_def q_def E_def .
  then have dk: "distinct (map (get_key [''id'']) objs')" using ok by simp
  have "length D = 2" by (simp add: D_def)
  then show ?thesis
    using bulk_sync_twice [OF ok' wf Snapshot_wf_meta kd sc dk] ok
    unfolding R_def D_def q_def E_def by simp
qed

text \<open>
  The claim as stated fails: after one snapshot has been created, the second call with the
  same record reports updated = 1, not 0.
\<close>

theorem bulk_sync_twice_counterexample:
  "(case bulk_sync Snapshot_meta [example_snapshot ''c'' ''new'' VNone] [''id'']
           (Some (\<lambda>r. r ''repository_id'' = example_repo ''id'')) None
           (Some [''total_size'', ''total_file_count'']) [] of
      (Inl e, t1) \<Rightarrow> False
    | (Inr res1, t1) \<Rightarrow>
        (case bulk_sync Snapshot_meta (snd res1) [''id'']
                (Some (\<lambda>r. r ''repository_id'' = example_repo ''id'')) None
                (Some [''total_size'', ''total_file_count'']) t1 of
           (Inl e, t2) \<Rightarrow> False
         | (Inr res2, t2) \<Rightarrow>
             created (fst res2) = 0 \<and> updated (fst res2) = 1 \<and> deleted (fst res2) = 0))"
  by (simp add: eval_bulk_sync example_snapshot_def example_repo_def)

section \<open>Desired records with the same key\<close>

lemma classify_append:
  "classify pk ks as d = (ta, d1) \<Longrightarrow> classify pk ks bs d1 = (tb, d2)
   \<Longrightarrow> classify pk ks (as @ bs) d = (ta @ tb, d2)"
proof (induction as arbitrary: d ta)
  case Nil
  then show ?case by simp
next
  case (Cons a as)
  show ?case
  proof (cases "map_of d (get_key ks a)")
    case None
    obtain tr dr where r: "classify pk ks as d = (tr, dr)" by (cases "classify pk ks as d") auto
    then have "ta = (True, a) # tr" and "dr = d1" using Cons.prems(1) None by simp_all
    moreover have "classify pk ks (as @ bs) d = (tr @ tb, d2)"
      using Cons.IH [of d tr] r Cons.prems(2) \<open>dr = d1\<close> by simp
    ultimately show ?thesis using None by simp
  next
    case (Some e)
    obtain tr dr where r: "classify pk ks as (AList.delete (get_key ks a) d) = (tr, dr)"
      by (cases "classify pk ks as (AList.delete (get_key ks a) d)") auto
    then have "ta = (False, a(pk := e pk)) # tr" and "dr = d1"
      using Cons.prems(1) Some by simp_all
    moreover have "classify pk ks (as @ bs) (AList.delete (get_key ks a) d) = (tr @ tb, d2)"
      using Cons.IH [of "AList.delete (get_key ks a) d" tr] r Cons.prems(2) \<open>dr = d1\<close> by simp
    ultimately show ?thesis using Some by simp
  qed
qed

lemma classify_absent_new:
  assumes "classify pk ks (as @ y # zs) d = (tg, d')" and "map_of d (get_key ks y) = None"
  shows "\<exists>A C. map snd (filter fst tg) = A @ y # C"
proof -
  obtain ta d1 where a: "classify pk ks as d = (ta, d1)" by (cases "classify pk ks as d") auto
  obtain tz d2 where z: "classify pk ks zs d1 = (tz, d2)" by (cases "classify pk ks zs d1") auto
  have "map_of d1 (get_key ks y) = None"
    using classify_rest [OF a, of "get_key ks y"] assms(2) by simp
  then have "classify pk ks (y # zs) d1 = ((True, y) # tz, d2)" using z by simp
  from classify_append [OF a this] have "tg = ta @ (True, y) # tz"
    using assms(1) by simp
  then have "map snd (filter fst tg) = map snd (filter fst ta) @ y # map snd (filter fst tz)"
    by simp
  then show ?thesis by blast
qed

lemma insert_with_pk_error:
  "fst (insert_with_pk pk obs t) = Inl e \<Longrightarrow> e = IntegrityError"
proof (induction obs arbitrary: t)
  case Nil
  then show ?case by simp
next
  case (Cons a obs)
  show ?case
  proof (cases "a pk = VNone")
    case True
    then show ?thesis using Cons.IH [of t] Cons.prems by simp
  next
    case False
    show ?thesis
    proof (cases "a pk \<in> set (map (\<lambda>r. r pk) t)")
      case True
      then show ?thesis using False Cons.prems by simp
    next
      case nin: False
      then show ?thesis using False Cons.IH [of "t @ [a]"] Cons.prems by simp
    qed
  qed
qed

lemma bulk_create_error:
  assumes "fst (bulk_create pk obs t) = Inl e"
  shows "e = IntegrityError"
proof -
  obtain r t1 where i: "insert_with_pk pk obs t = (r, t1)"
    by (cases "insert_with_pk pk obs t") auto
  show ?thesis
  proof (cases r)
    case (Inl e')
    then have "e' = e" using assms i by (simp add: bulk_create_def)
    then show ?thesis using insert_with_pk_error [of pk obs t e] i Inl by simp
  next
    case (Inr u)
    then show ?thesis using assms i by (simp add: bulk_create_def split: prod.splits)
  qed
qed

lemma bulk_create_distinct:
  assumes "bulk_create pk obs t = (Inr obs', t1)" and "wf_table pk t"
  shows "distinct (map (\<lambda>r. r pk) (t @ filter (\<lambda>ob. ob pk \<noteq> VNone) obs))"
proof -
  obtain r ta where i: "insert_with_pk pk obs t = (r, ta)"
    by (cases "insert_with_pk pk obs t") auto
  then obtain u where "r = Inr u"
    using assms(1) by (cases r) (simp_all add: bulk_create_def)
  then have "insert_with_pk pk obs t = (Inr u, ta)" using i by simp
  from insert_with_pk_ok [OF this assms(2)]
  have "wf_table pk (t @ filter (\<lambda>ob. ob pk \<noteq> VNone) obs)" by auto
  then show ?thesis by (simp only: wf_table_iff)
qed

lemma duplicate_pk_rejected:
  assumes wf: "wf_table pk t" and pk: "pk \<in> set ks"
    and k: "get_key ks x = get_key ks y" and nn: "x pk \<noteq> VNone"
    and c: "classify pk ks (xs @ x # ys @ y # zs) (dict_of ks (subset_qs filters t)) = (tagged, d')"
  shows "fst (bulk_create pk (map snd (filter fst tagged)) t) = Inl IntegrityError"
proof (cases "fst (bulk_create pk (map snd (filter fst tagged)) t)")
  case (Inl e)
  then show ?thesis using bulk_create_error [of pk _ t e] by simp
next
  case (Inr new')
  define new where "new = map snd (filter fst tagged)"
  define d0 where "d0 = dict_of ks (subset_qs filters t)"
  obtain t1 where bc: "bulk_create pk new t = (Inr new', t1)"
    using Inr by (cases "bulk_create pk new t") (auto simp: new_def)
  have dist: "distinct (map (\<lambda>r. r pk) (t @ filter (\<lambda>ob. ob pk \<noteq> VNone) new))"
    by (rule bulk_create_distinct [OF bc wf])
  have xy: "x pk = y pk" using k pk by (simp add: get_key_eq_iff)
  obtain ta d1 where a: "classify pk ks xs d0 = (ta, d1)" by (cases "classify pk ks xs d0") auto
  obtain tb d2 where b0: "classify pk ks (x # ys @ y # zs) d1 = (tb, d2)"
    by (cases "classify pk ks (x # ys @ y # zs) d1") auto
  from classify_append [OF a b0] c have tg: "tagged = ta @ tb" and "d2 = d'"
    by (simp_all add: d0_def)
  then have b: "classify pk ks (x # ys @ y # zs) d1 = (tb, d')" using b0 by simp
  have newab: "new = map snd (filter fst ta) @ map snd (filter fst tb)"
    using tg by (simp add: new_def)
  have False
  proof (cases "map_of d1 (get_key ks x)")
    case None
    then obtain tr where r: "classify pk ks (ys @ y # zs) d1 = (tr, d')"
      and tb: "tb = (True, x) # tr"
      using b by (auto split: prod.splits)
    have "map_of d1 (get_key ks y) = None" using None k by simp
    from classify_absent_new [OF r this] obtain A C where
      "map snd (filter fst tr) = A @ y # C" by blast
    then have "new = map snd (filter fst ta) @ x # A @ y # C" using newab tb by simp
    then have "\<not> distinct (map (\<lambda>r. r pk) (filter (\<lambda>ob. ob pk \<noteq> VNone) new))"
      using xy nn by simp
    then show False using dist by simp
  next
    case (Some e)
    then obtain tr where
      r: "classify pk ks (ys @ y # zs) (AList.delete (get_key ks x) d1) = (tr, d')"
      and tb: "tb = (False, x(pk := e pk)) # tr"
      using b by (auto split: prod.splits)
    have "map_of (AList.delete (get_key ks x) d1) (get_key ks y) = None"
      using k by (simp add: delete_conv')
    from classify_absent_new [OF r this] obtain A C where
      "map snd (filter fst tr) = A @ y # C" by blast
    then have "y \<in> set new" using newab tb by simp
    then have "y \<in> set (filter (\<lambda>ob. ob pk \<noteq> VNone) new)" using xy nn by simp
    then have yin: "y pk \<in> set (map (\<lambda>r. r pk) (filter (\<lambda>ob. ob pk \<noteq> VNone) new))"
      by (metis (no_types, lifting) image_eqI set_map)
    have "map_of d0 (get_key ks x) = Some e"
      using classify_rest [OF a, of "get_key ks x"] Some by (simp split: if_splits)
    from dict_of_sound [OF this [unfolded d0_def]]
    have e: "e \<in> set t" "get_key ks e = get_key ks x" by (simp_all add: subset_qs_def)
    have "e pk = y pk" using e(2) pk xy by (simp add: get_key_eq_iff)
    then have "y pk \<in> (\<lambda>r. r pk) ` set t" using e(1) by (metis (no_types, lifting) image_eqI)
    then have yt: "y pk \<in> set (map (\<lambda>r. r pk) t)" by simp
    have "set (map (\<lambda>r. r pk) t)
        \<inter> set (map (\<lambda>r. r pk) (filter (\<lambda>ob. ob pk \<noteq> VNone) new)) = {}"
      using dist by simp
    with yin yt show False by blast
  qed
  then show ?thesis ..
qed


text \<open>
  Claim C3, as the code has it. \<open>bulk_sync\<close> has no check of its own for desired records
  that share a key. When the key fields include the primary key (as for Snapshot, keyed by
  \<open>id\<close>) and two desired records carry the same key with a primary key that is not
  \<open>None\<close>, the insert of the second one violates the primary key: the call fails with
  \<open>IntegrityError\<close> and the table is exactly as before.
\<close>

theorem duplicate_primary_keys_fail:
  assumes wf: "wf_table (pk_attname m) t"
    and pk: "pk_attname m \<in> set ks"
    and k: "get_key ks x = get_key ks y"
    and nn: "x (pk_attname m) \<noteq> VNone"
  shows "bulk_sync m (xs @ x # ys @ y # zs) ks filters fieldlist exclude t
     = (Inl IntegrityError, t)"
proof -
  define fl where "fl = resolve_fields m fieldlist exclude"
  obtain tagged d' where
    c: "classify (pk_attname m) ks (xs @ x # ys @ y # zs) (dict_of ks (subset_qs filters t))
          = (tagged, d')"
    by (cases "classify (pk_attname m) ks (xs @ x # ys @ y # zs)
          (dict_of ks (subset_qs filters t))") auto
  obtain r t1 where bc: "bulk_create (pk_attname m) (map snd (filter fst tagged)) t = (r, t1)"
    by (cases "bulk_create (pk_attname m) (map snd (filter fst tagged)) t") auto
  have "r = Inl IntegrityError"
    using duplicate_pk_rejected [OF wf pk k nn c] bc by simp
  then have "bulk_sync_body m (xs @ x # ys @ y # zs) ks filters fl t = (Inl IntegrityError, t1)"
    using c bc by (simp add: bulk_sync_body_def)
  then show ?thesis by (simp add: bulk_sync_def atomic_def fl_def)
qed

theorem duplicate_primary_keys_fail_witness:
  "bulk_sync Snapshot_meta
     [example_snapshot ''a'' ''new'' VNone, example_snapshot ''a'' ''other'' VNone] [''id'']
     (Some (\<lambda>r. r ''repository_id'' = example_repo ''id'')) None
     (Some [''total_size'', ''total_file_count'']) (snapshots example_world)
   = (Inl IntegrityError, snapshots example_world)"
proof -
  have wf: "wf_table (pk_attname Snapshot_meta) (snapshots example_world)"
    by (simp add: Snapshot_pk wf_table_def example_world_def example_snapshot_def)
  have pk: "pk_attname Snapshot_meta \<in> set [''id'']" by (simp add: Snapshot_pk)
  have k: "get_key [''id''] (example_snapshot ''a'' ''new'' VNone)
      = get_key [''id''] (example_snapshot ''a'' ''other'' VNone)"
    by (simp add: get_key_def example_snapshot_def)
  have nn: "example_snapshot ''a'' ''new'' VNone (pk_attname Snapshot_meta) \<noteq> VNone"
    by (simp add: Snapshot_pk example_snapshot_def)
  show ?thesis
    using duplicate_primary_keys_fail [OF wf pk k nn, of "[]" "[]" "[]"] by simp
qed

text \<open>
  The claim as stated fails for SnapshotPath, keyed by \<open>(snapshot_id, path)\<close> and without
  a uniqueness constraint on that pair: two desired entries with the same path are both
  inserted, and the call reports created = 2.
\<close>

theorem duplicate_keys_stored_counterexample:
  "(case bulk_sync SnapshotPath_meta
           [(example_path 0 ''/etc'' VNone)(''id'' := VNone, ''name'' := VStr ''etc''),
            (example_path 0 ''/etc'' VNone)(''id'' := VNone, ''name'' := VStr ''etc2'')]
           [''snapshot_id'', ''path'']
           (Some (children_q (example_path 1 ''/'' VNone))) None None
           [example_path 1 ''/'' VNone] of
      (Inl e, t') \<Rightarrow> False
    | (Inr res, t') \<Rightarrow>
        created (fst res) = 2 \<and> updated (fst res) = 0 \<and> deleted (fst res) = 0
        \<and> map (\<lambda>r. (r ''id'', r ''path'', r ''name'')) t'
            = [(VInt 1, VStr ''/'', VNone), (VInt 2, VStr ''/etc'', VStr ''etc''),
               (VInt 3, VStr ''/etc'', VStr ''etc2'')])"
  by (simp add: eval_bulk_sync children_q_def example_path_def)


end
